theory Spec2Isabelle
  imports Main "HOL-Library.Log_Nat"
begin

section \<open>Go numerics used by the vectorizer\<close>

text \<open>
  Go's \<open>int\<close> and \<open>time.Duration\<close> are 64-bit two's complement integers. They are
  modelled as \<open>int\<close>, with the wrap-around written out by \<open>wrap64\<close> at every
  arithmetic operation of the source.
\<close>

definition wrap64 :: "int \<Rightarrow> int" where
  "wrap64 x = (x + 2 ^ 63) mod 2 ^ 64 - 2 ^ 63"

definition Second :: int where
  "Second = 1000000000"

text \<open>Go's integer division and remainder truncate towards zero.\<close>

definition quo :: "int \<Rightarrow> int \<Rightarrow> int" where
  "quo a b = sgn a * sgn b * (\<bar>a\<bar> div \<bar>b\<bar>)"

definition rem :: "int \<Rightarrow> int \<Rightarrow> int" where
  "rem a b = a - b * quo a b"

text \<open>
  \<open>float32\<close> and \<open>float64\<close> values are IEEE 754 binary floats with 24 and 53
  significant bits. A finite value is the rational it denotes; every operation
  computes the exact rational result and rounds it to the nearest value with \<open>p\<close>
  significant bits, ties to even (\<open>rnd p\<close>). The exponent range is not bounded:
  all finite values the vectorizer computes are quotients and products of 64-bit
  integers, which lie inside the normal range of both formats. Division by zero gives
  an infinity or NaN as in Go (no panic). The sign of zero is not modelled: the only
  divisors are conversions of integers, which are never the negative zero.
\<close>

datatype gofloat = Fin rat | PInf | NInf | NaN

definition round_half_even :: "rat \<Rightarrow> int" where
  "round_half_even x =
     (let f = \<lfloor>x\<rfloor>; d = x - of_int f in
      if d < 1 / 2 then f else if 1 / 2 < d then f + 1 else if even f then f else f + 1)"

text \<open>For \<open>a > 0\<close>, \<open>ilog2 a\<close> is the exponent \<open>e\<close> with \<open>2 ^ e \<le> a < 2 ^ (e + 1)\<close>.\<close>

definition ilog2 :: "rat \<Rightarrow> int" where
  "ilog2 a =
     (let (n, d) = quotient_of a; k = bitlen n - bitlen d in
      if 2 powi k \<le> a then k else k - 1)"

definition rnd :: "nat \<Rightarrow> rat \<Rightarrow> rat" where
  "rnd p x =
     (if x = 0 then 0
      else let a = \<bar>x\<bar>; u = 2 powi (ilog2 a - int p + 1) in
        sgn x * of_int (round_half_even (a / u)) * u)"

definition f_of_int :: "nat \<Rightarrow> int \<Rightarrow> gofloat" where
  "f_of_int p n = Fin (rnd p (of_int n))"

definition f_neg :: "gofloat \<Rightarrow> gofloat" where
  "f_neg a = (case a of Fin x \<Rightarrow> Fin (- x) | PInf \<Rightarrow> NInf | NInf \<Rightarrow> PInf | NaN \<Rightarrow> NaN)"

definition f_mul :: "nat \<Rightarrow> gofloat \<Rightarrow> gofloat \<Rightarrow> gofloat" where
  "f_mul p a b =
     (case (a, b) of
        (NaN, _) \<Rightarrow> NaN
      | (_, NaN) \<Rightarrow> NaN
      | (Fin x, Fin y) \<Rightarrow> Fin (rnd p (x * y))
      | (Fin x, i) \<Rightarrow> if x = 0 then NaN else if 0 < x then i else f_neg i
      | (i, Fin y) \<Rightarrow> if y = 0 then NaN else if 0 < y then i else f_neg i
      | (i, i') \<Rightarrow> if i = i' then PInf else NInf)"

definition f_div :: "nat \<Rightarrow> gofloat \<Rightarrow> gofloat \<Rightarrow> gofloat" where
  "f_div p a b =
     (case (a, b) of
        (NaN, _) \<Rightarrow> NaN
      | (_, NaN) \<Rightarrow> NaN
      | (Fin x, Fin y) \<Rightarrow>
          if y \<noteq> 0 then Fin (rnd p (x / y))
          else if x = 0 then NaN else if 0 < x then PInf else NInf
      | (Fin x, _) \<Rightarrow> Fin 0
      | (i, Fin y) \<Rightarrow> if 0 \<le> y then i else f_neg i
      | (_, _) \<Rightarrow> NaN)"

definition f_add :: "nat \<Rightarrow> gofloat \<Rightarrow> gofloat \<Rightarrow> gofloat" where
  "f_add p a b =
     (case (a, b) of
        (NaN, _) \<Rightarrow> NaN
      | (_, NaN) \<Rightarrow> NaN
      | (Fin x, Fin y) \<Rightarrow> Fin (rnd p (x + y))
      | (Fin x, i) \<Rightarrow> i
      | (i, Fin y) \<Rightarrow> i
      | (i, i') \<Rightarrow> if i = i' then i else NaN)"

definition f_less :: "gofloat \<Rightarrow> gofloat \<Rightarrow> bool" where
  "f_less a b =
     (case (a, b) of
        (NaN, _) \<Rightarrow> False
      | (_, NaN) \<Rightarrow> False
      | (Fin x, Fin y) \<Rightarrow> x < y
      | (Fin x, i) \<Rightarrow> i = PInf
      | (i, Fin y) \<Rightarrow> i = NInf
      | (i, i') \<Rightarrow> i = NInf \<and> i' = PInf)"

text \<open>
  Conversion of a float to \<open>int\<close>/\<open>time.Duration\<close> truncates towards zero. For NaN,
  an infinity or a value outside the 64-bit range Go leaves the result to the
  implementation; the value here is the one of amd64 (the smallest 64-bit integer).
\<close>

definition f_to_int64 :: "gofloat \<Rightarrow> int" where
  "f_to_int64 a =
     (case a of
        Fin x \<Rightarrow>
          (let t = (if 0 \<le> x then \<lfloor>x\<rfloor> else \<lceil>x\<rceil>) in
           if - (2 ^ 63) \<le> t \<and> t < 2 ^ 63 then t else - (2 ^ 63))
      | _ \<Rightarrow> - (2 ^ 63))"

text \<open>\<open>Duration.Seconds\<close> of package \<open>time\<close>:
  \<open>float64(d / Second) + float64(d % Second) / 1e9\<close>.\<close>

definition Seconds :: "int \<Rightarrow> gofloat" where
  "Seconds d = f_add 53 (f_of_int 53 (quo d Second)) (f_div 53 (f_of_int 53 (rem d Second)) (Fin 1000000000))"

definition is_finite :: "gofloat \<Rightarrow> bool" where
  "is_finite a = (case a of Fin x \<Rightarrow> True | _ \<Rightarrow> False)"

section \<open>Constants and data of \<open>vectorizer/objects.go\<close>\<close>

definition MaxObjectsPerBatch :: nat where
  "MaxObjectsPerBatch = 2000"

definition OpenAiMaxTimePerBatch :: gofloat where
  "OpenAiMaxTimePerBatch = Fin 10"

text \<open>
  Errors. The four errors the worker creates itself are constructors of their own;
  errors handed over by the client or the tokenizer are opaque.
  \<^item> \<open>ContextDone\<close>: "context deadline exceeded or cancelled"
  \<^item> \<open>TextTooLong\<close>: "text too long for vectorization"
  \<^item> \<open>CannotWaitForTokens\<close>: "text too long for vectorization. Cannot wait for token
    refresh due to time limit"
  \<^item> \<open>RequestRateLimit\<close>: "request rate limit exceeded and will not refresh in time"
\<close>

datatype error =
    External string
  | ContextDone
  | TextTooLong
  | CannotWaitForTokens
  | RequestRateLimit

datatype panic = IndexOutOfRange | NilDereference

type_synonym vector = "rat list"

text \<open>
  Modelled from the spec: the type \<open>ent.RateLimits\<close> is declared in package \<open>ent\<close>,
  which is not among the sources. Its fields are the six \<open>int\<close> values of the spec's
  "Rate Limit State", under the names \<open>objects.go\<close> reads them by.
\<close>

record RateLimits =
  LimitRequests :: int
  LimitTokens :: int
  RemainingRequests :: int
  RemainingTokens :: int
  ResetRequests :: int
  ResetTokens :: int

text \<open>
  Modelled from the spec: \<open>ent.VectorizationResult\<close> (package \<open>ent\<close>) carries one
  embedding or error per input text. \<open>objects.go\<close> reads its slices \<open>Vector\<close> and
  \<open>Errors\<close>; a \<open>nil\<close> entry of \<open>Errors\<close> is \<open>None\<close>.
\<close>

record VectorizationResult =
  Vector :: "vector list"
  Errors :: "error option list"

text \<open>What one call of \<open>Client.Vectorize\<close> returns: the three results
  \<open>(*ent.VectorizationResult, *ent.RateLimits, error)\<close>, \<open>nil\<close> being \<open>None\<close>.\<close>

record response =
  res :: "VectorizationResult option"
  limits :: "RateLimits option"
  err :: "error option"

text \<open>
  The struct \<open>batchJob\<close>. The fields \<open>ctx\<close> and \<open>startTime\<close> are read through the
  environment below, \<open>wg\<close> is signalled when \<open>process_job\<close> returns \<open>Done\<close>, and
  \<open>cfg\<close> is passed through to the client unread. A \<open>nil\<close> entry of \<open>vecs\<close> is
  \<open>None\<close>.

  Jobs are built by \<open>ObjectBatch\<close> only (line 321), with \<open>texts\<close>, \<open>tokens\<close> and
  \<open>vecs\<close> as long as the list of objects and \<open>skipObject\<close> at least as long. The
  worker reads \<open>job.texts\<close>, \<open>job.tokens\<close> and \<open>job.skipObject\<close> at indices below
  \<open>len(job.texts)\<close> only, which is within range for such a job; these reads are
  written with \<open>!\<close>. Writes to \<open>job.vecs\<close> and reads of the client's answer, whose
  lengths the client decides, are checked, and panic when out of range.
\<close>

record batchJob =
  texts :: "string list"
  tokens :: "int list"
  errs :: "nat \<rightharpoonup> error"
  vecs :: "vector option list"
  skipObject :: "bool list"

text \<open>
  The world outside the worker, as the answers it gives:
  \<^item> \<open>Vectorize n ts\<close>: what the \<open>n\<close>-th call of \<open>client.Vectorize\<close> (counted from 0)
    returns for the input \<open>ts\<close>;
  \<^item> \<open>ctxErr n\<close>: whether the \<open>n\<close>-th evaluation of \<open>job.ctx.Err() != nil\<close> is true;
  \<^item> \<open>since n\<close>: the \<open>n\<close>-th reading of \<open>time.Since(job.startTime)\<close>, in nanoseconds;
  \<^item> \<open>took n\<close>: \<open>time.Since(start)\<close> measured around the \<open>n\<close>-th client call (line 220);
  \<^item> \<open>maxBatchTime\<close>: the field of the \<open>Vectorizer\<close>.
\<close>

record env =
  Vectorize :: "nat \<Rightarrow> string list \<Rightarrow> response"
  ctxErr :: "nat \<Rightarrow> bool"
  since :: "nat \<Rightarrow> int"
  took :: "nat \<Rightarrow> int"
  maxBatchTime :: int

text \<open>
  What the worker does to the outside: \<open>Call is b\<close> is one call of
  \<open>client.Vectorize\<close> for the original indices \<open>is\<close>; \<open>Sleep t d\<close> is one
  \<open>time.Sleep d\<close>, entered when \<open>time.Since(job.startTime)\<close> was read as \<open>t\<close>.
  The second argument of \<open>Call\<close> is the field \<open>budget\<close> of the state (see there).
\<close>

datatype event = Call "nat list" int | Sleep int int

text \<open>
  The variables of \<open>batchWorker\<close>: those declared before the job loop
  (\<open>rateLimit\<close>, \<open>firstRequest\<close>, \<open>timePerToken\<close>, and the slices \<open>texts\<close> and
  \<open>origIndex\<close>, here \<open>batch\<close> and \<open>origIndex\<close>), those of one job
  (\<open>objCounter\<close>, \<open>tokensInCurrentBatch\<close>) and the job's two buffers (\<open>job.errs\<close>,
  \<open>job.vecs\<close>, here \<open>jerrs\<close> and \<open>jvecs\<close>).

  Four fields are not variables of the source. \<open>trace\<close> lists the calls and sleeps
  in the order they happen; \<open>ncalls\<close>, \<open>nctx\<close> and \<open>nclock\<close> count the questions
  put to the environment so far. \<open>budget\<close> remembers \<open>rateLimit.RemainingTokens\<close>
  as the admission test of line 192 read it when it last admitted an item; no
  decision of the worker depends on these fields.
\<close>

record state =
  rateLimit :: "RateLimits option"
  firstRequest :: bool
  timePerToken :: gofloat
  batch :: "string list"
  origIndex :: "nat list"
  objCounter :: nat
  tokensInCurrentBatch :: int
  jerrs :: "nat \<rightharpoonup> error"
  jvecs :: "vector option list"
  trace :: "event list"
  ncalls :: nat
  nctx :: nat
  nclock :: nat
  budget :: int

text \<open>The worker's variables when \<open>batchWorker\<close> starts (lines 138 to 143).\<close>

definition initial :: state where
  "initial =
     \<lparr>rateLimit = Some \<lparr>LimitRequests = 0, LimitTokens = 0, RemainingRequests = 0,
                         RemainingTokens = 0, ResetRequests = 0, ResetTokens = 0\<rparr>,
      firstRequest = True, timePerToken = Fin 0, batch = [], origIndex = [],
      objCounter = 0, tokensInCurrentBatch = 0, jerrs = Map.empty, jvecs = [],
      trace = [], ncalls = 0, nctx = 0, nclock = 0, budget = 0\<rparr>"

text \<open>What a piece of code ends with: a result, or a panic \<open>p\<close> that is raised when
  the variables are \<open>s\<close>.\<close>

datatype ('a, 's) go = Ret 'a | Panics panic 's

section \<open>\<open>makeRequest\<close>\<close>

text \<open>One round of the loop of lines 268 to 274, for position \<open>j\<close> of the request.\<close>

definition store_result ::
  "VectorizationResult \<Rightarrow> nat list \<Rightarrow> nat \<Rightarrow> (state, state) go \<Rightarrow> (state, state) go" where
  "store_result r oi j g =
     (case g of
        Panics p s \<Rightarrow> Panics p s
      | Ret s \<Rightarrow>
          if length (Errors r) \<le> j then Panics IndexOutOfRange s
          else if length oi \<le> j then Panics IndexOutOfRange s
          else (case Errors r ! j of
                  Some e \<Rightarrow> Ret (s\<lparr>jerrs := (jerrs s)(oi ! j \<mapsto> e)\<rparr>)
                | None \<Rightarrow>
                    if length (Vector r) \<le> j \<or> length (jvecs s) \<le> oi ! j
                    then Panics IndexOutOfRange s
                    else Ret (s\<lparr>jvecs := (jvecs s)[oi ! j := Some (Vector r ! j)]\<rparr>)))"

text \<open>One round of the loop of lines 264 to 266.\<close>

definition store_error ::
  "error \<Rightarrow> nat list \<Rightarrow> nat \<Rightarrow> (state, state) go \<Rightarrow> (state, state) go" where
  "store_error e oi j g =
     (case g of
        Panics p s \<Rightarrow> Panics p s
      | Ret s \<Rightarrow>
          if length oi \<le> j then Panics IndexOutOfRange s
          else Ret (s\<lparr>jerrs := (jerrs s)(oi ! j \<mapsto> e)\<rparr>))"

text \<open>
  \<open>makeRequest job texts conf origIndex\<close>: one client call, whose answer is written
  into the job's buffers. It returns the call's rate limits and error beside the
  state.
\<close>

definition makeRequest ::
  "env \<Rightarrow> string list \<Rightarrow> nat list \<Rightarrow> state
     \<Rightarrow> (state \<times> RateLimits option \<times> error option, state) go" where
  "makeRequest e ts oi s =
     (let r = Vectorize e (ncalls s) ts;
          s1 = s\<lparr>ncalls := ncalls s + 1, trace := trace s @ [Call oi (budget s)]\<rparr>;
          g = (case err r of
                 Some er \<Rightarrow> fold (store_error er oi) [0..<length ts] (Ret s1)
               | None \<Rightarrow>
                   (case res r of
                      None \<Rightarrow> if ts = [] then Ret s1 else Panics NilDereference s1
                    | Some vr \<Rightarrow> fold (store_result vr oi) [0..<length ts] (Ret s1)))
      in case g of Panics p s2 \<Rightarrow> Panics p s2 | Ret s2 \<Rightarrow> Ret (s2, limits r, err r))"

section \<open>\<open>batchWorker\<close>\<close>

text \<open>
  How far a loop of the worker gets on a given amount of fuel, every round of a loop
  taking one unit: \<open>Done s\<close>, the loop has ended with the variables \<open>s\<close>;
  \<open>Panicked p s\<close>, the worker's goroutine has panicked; \<open>OutOfFuel s\<close>, the loop
  is still running when the fuel ends, and \<open>s\<close> are its variables at that moment.
\<close>

datatype outcome = Done state | Panicked panic state | OutOfFuel state

definition final :: "outcome \<Rightarrow> state" where
  "final r = (case r of Done s \<Rightarrow> s | Panicked p s \<Rightarrow> s | OutOfFuel s \<Rightarrow> s)"

text \<open>The loop of lines 156 to 167, which sends one object alone while no rate
  limits are known.\<close>

fun bootstrap :: "nat \<Rightarrow> env \<Rightarrow> batchJob \<Rightarrow> state \<Rightarrow> outcome" where
  "bootstrap 0 e j s = OutOfFuel s"
| "bootstrap (Suc n) e j s =
     (if objCounter s < length (texts j) \<and> firstRequest s then
        if \<not> skipObject j ! objCounter s then
          (case makeRequest e [texts j ! objCounter s] [objCounter s] s of
             Panics p s1 \<Rightarrow> Panicked p s1
           | Ret (s1, rl, er) \<Rightarrow>
               (case er of
                  Some x \<Rightarrow>
                    bootstrap n e j
                      (s1\<lparr>rateLimit := rl, jerrs := (jerrs s1)(objCounter s \<mapsto> x)\<rparr>)
                | None \<Rightarrow>
                    bootstrap n e j
                      (s1\<lparr>rateLimit := rl, firstRequest := False,
                          objCounter := objCounter s + 1\<rparr>)))
        else bootstrap n e j (s\<lparr>objCounter := objCounter s + 1\<rparr>)
      else Done s)"

text \<open>The loops of lines 171 to 175 and 230 to 234: every object from \<open>k\<close> on that
  is not skipped gets the error.\<close>

definition mark_from :: "error \<Rightarrow> nat \<Rightarrow> batchJob \<Rightarrow> state \<Rightarrow> state" where
  "mark_from x k j s =
     s\<lparr>jerrs := fold (\<lambda>i m. if \<not> skipObject j ! i then m(i \<mapsto> x) else m)
                    [k..<length (texts j)] (jerrs s)\<rparr>"

text \<open>The admission test of line 192.\<close>

definition admits :: "RateLimits \<Rightarrow> gofloat \<Rightarrow> int \<Rightarrow> int \<Rightarrow> nat \<Rightarrow> bool" where
  "admits rl tpt tib tok n \<longleftrightarrow>
     f_less (f_of_int 24 (wrap64 (tib + tok)))
            (f_mul 24 (Fin (rnd 24 (19 / 20))) (f_of_int 24 (RemainingTokens rl)))
     \<and> f_less (f_mul 53 tpt (f_of_int 53 tib)) OpenAiMaxTimePerBatch
     \<and> n < MaxObjectsPerBatch"

text \<open>Lines 206 to 214: an object that does not fit the remaining tokens while the
  batch is empty waits for the token limit to refresh, or fails.\<close>

definition token_wait :: "env \<Rightarrow> batchJob \<Rightarrow> RateLimits \<Rightarrow> state \<Rightarrow> state" where
  "token_wait e j rl s =
     (let fractionOfTotalLimit =
            f_div 24 (f_of_int 24 (tokens j ! objCounter s)) (f_of_int 24 (LimitTokens rl));
          sleepTime =
            wrap64 (f_to_int64
                      (f_add 24 (f_mul 24 (f_of_int 24 (ResetTokens rl)) fractionOfTotalLimit)
                         (Fin 1)) * Second);
          now = since e (nclock s);
          s1 = s\<lparr>nclock := nclock s + 1\<rparr>
      in if wrap64 (now + sleepTime) < maxBatchTime e then
           s1\<lparr>trace := trace s1 @ [Sleep now sleepTime],
              rateLimit := Some (rl\<lparr>RemainingTokens :=
                wrap64 (RemainingTokens rl +
                  f_to_int64 (f_mul 24 (f_of_int 24 (LimitTokens rl)) fractionOfTotalLimit))\<rparr>)\<rparr>
         else s1\<lparr>jerrs := (jerrs s1)(objCounter s \<mapsto> CannotWaitForTokens),
                 objCounter := objCounter s + 1\<rparr>)"

text \<open>How one round of the main loop ends: with \<open>continue\<close> (or at the end of the
  loop body), with \<open>break\<close>, or with a panic.\<close>

datatype step = Continue state | Break state | Crash panic state

text \<open>Lines 241 to 243.\<close>

definition reset_batch :: "state \<Rightarrow> state" where
  "reset_batch s = s\<lparr>tokensInCurrentBatch := 0, batch := [], origIndex := []\<rparr>"

text \<open>Lines 220 and 221: \<open>batchTookInS = time.Since(start).Seconds()\<close> and
  \<open>timePerToken = batchTookInS / float64(tokensInCurrentBatch)\<close>, for a call that took
  \<open>d\<close> nanoseconds.\<close>

definition time_per_token :: "int \<Rightarrow> int \<Rightarrow> gofloat" where
  "time_per_token d tib = f_div 53 (Seconds d) (f_of_int 53 tib)"

text \<open>Lines 218 to 243: the batch is sent, the time per token and the rate limits
  are renewed, and the request limit is waited for or the job given up.\<close>

definition dispatch :: "env \<Rightarrow> batchJob \<Rightarrow> RateLimits \<Rightarrow> state \<Rightarrow> step" where
  "dispatch e j rl s =
     (case makeRequest e (batch s) (origIndex s) s of
        Panics p s1 \<Rightarrow> Crash p s1
      | Ret (s1, rateLimitNew, _) \<Rightarrow>
          (let rl1 = (case rateLimitNew of Some r \<Rightarrow> r | None \<Rightarrow> rl);
               s2 = s1\<lparr>timePerToken :=
                          time_per_token (took e (ncalls s)) (tokensInCurrentBatch s),
                       rateLimit := Some rl1\<rparr>
           in if RemainingRequests rl1 = 0 \<and> 0 < ResetRequests rl1 then
                (let now = since e (nclock s2);
                     s3 = s2\<lparr>nclock := nclock s2 + 1\<rparr>;
                     wait = wrap64 (ResetRequests rl1 * Second)
                 in if maxBatchTime e < wrap64 (now + wait) then
                      (case origIndex s3 of
                         [] \<Rightarrow> Crash IndexOutOfRange s3
                       | i0 # _ \<Rightarrow> Break (mark_from RequestRateLimit i0 j s3))
                    else Continue (reset_batch (s3\<lparr>trace := trace s3 @ [Sleep now wait]\<rparr>)))
              else Continue (reset_batch s2)))"

text \<open>One round of the loop of lines 169 to 244.\<close>

definition body :: "env \<Rightarrow> batchJob \<Rightarrow> state \<Rightarrow> step" where
  "body e j s =
     (let oc = objCounter s; s0 = s\<lparr>nctx := nctx s + 1\<rparr> in
      if ctxErr e (nctx s) then Break (mark_from ContextDone oc j s0)
      else if skipObject j ! oc then Continue (s0\<lparr>objCounter := oc + 1\<rparr>)
      else (case rateLimit s0 of
              None \<Rightarrow> Crash NilDereference s0
            | Some rl \<Rightarrow>
                if LimitTokens rl < tokens j ! oc then
                  Continue (s0\<lparr>jerrs := (jerrs s0)(oc \<mapsto> TextTooLong), objCounter := oc + 1\<rparr>)
                else
                  (let adm = admits rl (timePerToken s0) (tokensInCurrentBatch s0)
                               (tokens j ! oc) (length (batch s0));
                       s1 = (if adm then
                               s0\<lparr>tokensInCurrentBatch :=
                                     wrap64 (tokensInCurrentBatch s0 + tokens j ! oc),
                                  batch := batch s0 @ [texts j ! oc],
                                  origIndex := origIndex s0 @ [oc],
                                  objCounter := oc + 1,
                                  budget := RemainingTokens rl\<rparr>
                             else s0)
                   in if adm \<and> objCounter s1 < length (texts j) then Continue s1
                      else if batch s1 = [] \<and> 0 < ResetTokens rl then
                        Continue (token_wait e j rl s1)
                      else dispatch e j rl s1)))"

fun main_loop :: "nat \<Rightarrow> env \<Rightarrow> batchJob \<Rightarrow> state \<Rightarrow> outcome" where
  "main_loop 0 e j s = OutOfFuel s"
| "main_loop (Suc n) e j s =
     (if objCounter s < length (texts j) then
        (case body e j s of
           Continue s1 \<Rightarrow> main_loop n e j s1
         | Break s1 \<Rightarrow> Done s1
         | Crash p s1 \<Rightarrow> Panicked p s1)
      else Done s)"

text \<open>Lines 248 to 253: the batch that is left over is sent.\<close>

definition drain :: "env \<Rightarrow> batchJob \<Rightarrow> state \<Rightarrow> outcome" where
  "drain e j s =
     (if batch s \<noteq> [] \<and> objCounter s = length (texts j) then
        (case makeRequest e (batch s) (origIndex s) s of
           Panics p s1 \<Rightarrow> Panicked p s1
         | Ret (s1, rateLimitNew, _) \<Rightarrow>
             (case rateLimitNew of
                Some r \<Rightarrow> Done (s1\<lparr>rateLimit := Some r\<rparr>)
              | None \<Rightarrow> Done s1))
      else Done s)"

text \<open>Lines 148 to 151: the variables of a job start afresh.\<close>

definition start_job :: "batchJob \<Rightarrow> state \<Rightarrow> state" where
  "start_job j s =
     s\<lparr>objCounter := 0, tokensInCurrentBatch := 0, batch := [], origIndex := [],
       jerrs := errs j, jvecs := vecs j\<rparr>"

definition after_bootstrap :: "nat \<Rightarrow> env \<Rightarrow> batchJob \<Rightarrow> state \<Rightarrow> outcome" where
  "after_bootstrap n e j s =
     (case main_loop n e j s of
        Done s1 \<Rightarrow> drain e j s1
      | Panicked p s1 \<Rightarrow> Panicked p s1
      | OutOfFuel s1 \<Rightarrow> OutOfFuel s1)"

text \<open>
  One round of the job loop of \<open>batchWorker\<close> (lines 145 to 257) for the job \<open>j\<close>,
  from the worker's variables \<open>s\<close>, on \<open>n\<close> units of fuel for each of its two
  loops. \<open>Done s'\<close> is reaching \<open>job.wg.Done()\<close> at line 255 with the variables
  \<open>s'\<close>; after a panic the line is never reached, and a job that is \<open>OutOfFuel\<close>
  for every \<open>n\<close> never reaches it either.
\<close>

definition process_job :: "nat \<Rightarrow> env \<Rightarrow> batchJob \<Rightarrow> state \<Rightarrow> outcome" where
  "process_job n e j s =
     (case bootstrap n e j (start_job j s) of
        Done s1 \<Rightarrow> after_bootstrap n e j s1
      | Panicked p s1 \<Rightarrow> Panicked p s1
      | OutOfFuel s1 \<Rightarrow> OutOfFuel s1)"

section \<open>The entry points \<open>object\<close> and \<open>ObjectBatch\<close>\<close>

text \<open>
  The functions of other packages that the entry points call, taken as parameters:
  \<^item> \<open>Texts ob\<close>: \<open>v.objectVectorizer.Texts(ctx, object, icheck)\<close>;
  \<^item> \<open>Model\<close>: \<open>conf.Model\<close> of the class configuration;
  \<^item> \<open>EncodingForModel m\<close>: the error of \<open>tiktoken.EncodingForModel(m)\<close>, \<open>None\<close>
    when it finds the encoding;
  \<^item> \<open>GetTokensCount m t\<close>: \<open>clients.GetTokensCount(m, t, tke)\<close>;
  \<^item> \<open>CombineVectors\<close>: \<open>libvectorizer.CombineVectors\<close>.
\<close>

record 'o collaborators =
  Texts :: "'o \<Rightarrow> string"
  Model :: string
  EncodingForModel :: "string \<Rightarrow> error option"
  GetTokensCount :: "string \<Rightarrow> string \<Rightarrow> int"
  CombineVectors :: "vector list \<Rightarrow> vector"

text \<open>
  \<open>object\<close> (lines 102 to 114) calls the client directly; \<open>client\<close> is what that one
  call answers. The result is the returned error or vector; \<open>object\<close> has no
  variables of its own, so a panic carries none.
\<close>

definition object ::
  "'o collaborators \<Rightarrow> (string list \<Rightarrow> response) \<Rightarrow> 'o \<Rightarrow> (error + vector, unit) go" where
  "object c client ob =
     (let text = Texts c ob; r = client [text] in
      case err r of
        Some er \<Rightarrow> Ret (Inl er)
      | None \<Rightarrow>
          (case res r of
             None \<Rightarrow> Panics NilDereference ()
           | Some vr \<Rightarrow>
               if 1 < length (Vector vr) then Ret (Inr (CombineVectors c (Vector vr)))
               else (case Vector vr of
                       [] \<Rightarrow> Panics IndexOutOfRange ()
                     | v # _ \<Rightarrow> Ret (Inr v))))"

text \<open>
  What a caller of \<open>ObjectBatch\<close> gets: the two results \<open>([][]float32, map[int]error)\<close>
  (a \<open>nil\<close> slice of vectors is \<open>None\<close>) together with the worker's variables
  afterwards; or a panic in the caller's own goroutine; or nothing at all, when
  \<open>wg.Wait()\<close> never returns because the worker never reaches \<open>job.wg.Done()\<close>.
\<close>

datatype batch_outcome =
    Returned "vector option list option" "nat \<rightharpoonup> error" state
  | CallerPanics panic
  | Blocked

text \<open>Lines 292 to 295.\<close>

definition tokenizer_model :: "string \<Rightarrow> string" where
  "tokenizer_model m =
     (if m = ''text-embedding-ada-002'' \<or> m = ''text-embedding-3-small''
         \<or> m = ''text-embedding-3-large''
      then ''gpt-4'' else m)"

text \<open>
  \<open>ObjectBatch\<close> (lines 280 to 336) for one caller, the worker being idle with the
  variables \<open>w\<close>: the job that is put on the queue is the next one the worker takes.
\<close>

definition ObjectBatch ::
  "nat \<Rightarrow> env \<Rightarrow> 'o collaborators \<Rightarrow> state \<Rightarrow> 'o list \<Rightarrow> bool list \<Rightarrow> batch_outcome" where
  "ObjectBatch n e c w objects skip =
     (case EncodingForModel c (tokenizer_model (Model c)) of
        Some er \<Rightarrow>
          Returned None (fold (\<lambda>j m. m(j \<mapsto> er)) [0..<length objects] Map.empty) w
      | None \<Rightarrow>
          if length skip < length objects then CallerPanics IndexOutOfRange
          else
            (let skipAll = list_all (\<lambda>i. skip ! i) [0..<length objects];
                 job = \<lparr>texts = map (\<lambda>i. if skip ! i then [] else Texts c (objects ! i))
                                   [0..<length objects],
                        tokens = map (\<lambda>i. if skip ! i then 0
                                            else GetTokensCount c (Model c) (Texts c (objects ! i)))
                                   [0..<length objects],
                        errs = Map.empty,
                        vecs = replicate (length objects) None,
                        skipObject = skip\<rparr>
             in if skipAll then Returned (Some (vecs job)) (errs job) w
                else (case process_job n e job w of
                        Done s \<Rightarrow> Returned (Some (jvecs s)) (jerrs s) s
                      | Panicked p s \<Rightarrow> Blocked
                      | OutOfFuel s \<Rightarrow> Blocked)))"

section \<open>Concrete clients, jobs and rate limits\<close>

text \<open>A client answer in which every text gets the embedding \<open>[1]\<close>, and one in
  which the whole call fails.\<close>

definition all_embedded :: "RateLimits \<Rightarrow> string list \<Rightarrow> response" where
  "all_embedded rl ts =
     \<lparr>res = Some \<lparr>Vector = map (\<lambda>_. [1]) ts, Errors = map (\<lambda>_. None) ts\<rparr>,
      limits = Some rl, err = None\<rparr>"

definition call_failed :: response where
  "call_failed = \<lparr>res = None, limits = None, err = Some (External ''status 401'')\<rparr>"

text \<open>Rate limits with a token limit and a request limit of 100: \<open>limits_with rt st
  rr sr\<close> has \<open>rt\<close> tokens remaining, refilled in \<open>st\<close> seconds, and \<open>rr\<close> requests
  remaining, refilled in \<open>sr\<close> seconds.\<close>

definition limits_with :: "int \<Rightarrow> int \<Rightarrow> int \<Rightarrow> int \<Rightarrow> RateLimits" where
  "limits_with rt st rr sr =
     \<lparr>LimitRequests = 100, LimitTokens = 100, RemainingRequests = rr,
      RemainingTokens = rt, ResetRequests = sr, ResetTokens = st\<rparr>"

text \<open>A quiet world: the context is never cancelled, every clock reading is one
  second, the batch may take 40 seconds.\<close>

definition world :: "(nat \<Rightarrow> string list \<Rightarrow> response) \<Rightarrow> (nat \<Rightarrow> bool) \<Rightarrow> env" where
  "world client cancelled =
     \<lparr>Vectorize = client, ctxErr = cancelled, since = (\<lambda>_. Second), took = (\<lambda>_. Second),
      maxBatchTime = 40 * Second\<rparr>"

text \<open>A job as \<open>ObjectBatch\<close> builds it, of objects none of which is skipped.\<close>

definition job_of :: "string list \<Rightarrow> int list \<Rightarrow> batchJob" where
  "job_of ts ks =
     \<lparr>texts = ts, tokens = ks, errs = Map.empty, vecs = replicate (length ts) None,
      skipObject = replicate (length ts) False\<rparr>"

text \<open>The first call fails, the second succeeds.\<close>

definition retry_env :: env where
  "retry_env =
     world (\<lambda>n ts. if n = 0 then call_failed else all_embedded (limits_with 50 1 99 1) ts)
       (\<lambda>_. False)"

text \<open>Every call fails.\<close>

definition failing_env :: env where
  "failing_env = world (\<lambda>n ts. call_failed) (\<lambda>_. False)"

text \<open>Every call succeeds; the context is cancelled between the first and the
  second check of \<open>job.ctx.Err()\<close>.\<close>

definition cancel_env :: env where
  "cancel_env = world (\<lambda>n ts. all_embedded (limits_with 50 1 99 1) ts) (\<lambda>n. 1 \<le> n)"

text \<open>Every call succeeds; from the second call on the provider reports that no
  request is left for the next 100 seconds. \<open>rt\<close> is the number of tokens the first
  answer reports as remaining.\<close>

definition throttle_env :: "int \<Rightarrow> env" where
  "throttle_env rt =
     world (\<lambda>n ts. if n = 0 then all_embedded (limits_with rt 1 99 1) ts
                    else all_embedded (limits_with 50 1 0 100) ts)
       (\<lambda>_. False)"

text \<open>The first answer reports 10 tokens remaining, refilled within the second, and
  no request left for the next 100 seconds; later calls fail.\<close>

definition exhausted_env :: env where
  "exhausted_env =
     world (\<lambda>n ts. if n = 0 then all_embedded (limits_with 10 0 0 100) ts else call_failed)
       (\<lambda>_. False)"

text \<open>Collaborators for objects that are their own text, with one token per
  character; \<open>tokenizer\<close> is the answer of \<open>tiktoken.EncodingForModel\<close>.\<close>

definition plain :: "(string \<Rightarrow> error option) \<Rightarrow> string collaborators" where
  "plain tokenizer =
     \<lparr>Texts = (\<lambda>ob. ob), Model = ''ada'', EncodingForModel = tokenizer,
      GetTokensCount = (\<lambda>m t. int (length t)), CombineVectors = concat\<rparr>"

text \<open>A client answer without error and without any embedding.\<close>

definition no_chunks :: "string list \<Rightarrow> response" where
  "no_chunks ts =
     \<lparr>res = Some \<lparr>Vector = [], Errors = []\<rparr>, limits = Some (limits_with 50 1 99 1),
      err = None\<rparr>"

text \<open>Every call succeeds and reports 50 tokens and 99 requests remaining.\<close>

definition steady_env :: env where
  "steady_env = world (\<lambda>n ts. all_embedded (limits_with 50 1 99 1) ts) (\<lambda>_. False)"

text \<open>Every call succeeds and reports that no request is left for the next two
  seconds.\<close>

definition paced_env :: env where
  "paced_env = world (\<lambda>n ts. all_embedded (limits_with 50 1 0 2) ts) (\<lambda>_. False)"

text \<open>Every call succeeds and reports a token limit of 20000000, of which 17660223
  tokens remain.\<close>

definition large_budget_env :: env where
  "large_budget_env =
     world (\<lambda>n ts. all_embedded ((limits_with 17660223 1 99 1)\<lparr>LimitTokens := 20000000\<rparr>) ts)
       (\<lambda>_. False)"

text \<open>The first answer reports 10 tokens remaining, refilled within the second, and
  99 requests remaining; later calls fail.\<close>

definition starved_env :: env where
  "starved_env =
     world (\<lambda>n ts. if n = 0 then all_embedded (limits_with 10 0 99 1) ts else call_failed)
       (\<lambda>_. False)"

section \<open>Notions used in the properties\<close>

text \<open>A loop that is still running when its fuel ends.\<close>

definition still_running :: "outcome \<Rightarrow> bool" where
  "still_running r = (case r of OutOfFuel s \<Rightarrow> True | Done s \<Rightarrow> False | Panicked p s \<Rightarrow> False)"

text \<open>The variables a piece of code ends with, panic or not.\<close>

definition vars_of :: "(state, state) go \<Rightarrow> state" where
  "vars_of g = (case g of Ret s \<Rightarrow> s | Panics p s \<Rightarrow> s)"

text \<open>Two states of the worker that differ in the job's two buffers at most.\<close>

definition same_vars :: "state \<Rightarrow> state \<Rightarrow> bool" where
  "same_vars s s' \<longleftrightarrow> s\<lparr>jerrs := Map.empty, jvecs := []\<rparr> = s'\<lparr>jerrs := Map.empty, jvecs := []\<rparr>"

text \<open>A time per token that is an infinity or NaN: the quotient of a duration by
  zero.\<close>

definition poisoned :: "gofloat \<Rightarrow> bool" where
  "poisoned t \<longleftrightarrow> t = PInf \<or> t = NaN"

text \<open>Token counts as a tokenizer gives them: not negative, and far below the
  64-bit range.\<close>

definition tokens_ok :: "batchJob \<Rightarrow> bool" where
  "tokens_ok j \<longleftrightarrow> (\<forall>i<length (texts j). 0 \<le> tokens j ! i \<and> tokens j ! i < 2 ^ 62)"

text \<open>The sum of the token counts of the objects \<open>idxs\<close> of a job.\<close>

definition batch_tokens :: "batchJob \<Rightarrow> nat list \<Rightarrow> int" where
  "batch_tokens j idxs = sum_list (map (\<lambda>i. tokens j ! i) idxs)"

text \<open>
  What is shown of every call and every sleep of the main loop: a batch that is not
  empty and was admitted against a budget \<open>b\<close> of at most \<open>2 ^ 24\<close> tokens has a token
  sum below 95% of \<open>b\<close> (\<open>20 * sum < 19 * b\<close>); a sleep of \<open>d\<close> entered at \<open>t\<close> does
  not pass the deadline, in the 64-bit arithmetic of the comparison in the source.
\<close>

definition event_ok :: "env \<Rightarrow> batchJob \<Rightarrow> event \<Rightarrow> bool" where
  "event_ok e j ev =
     (case ev of
        Call idxs b \<Rightarrow>
          tokens_ok j \<and> idxs \<noteq> [] \<and> b \<le> 2 ^ 24 \<longrightarrow> 20 * batch_tokens j idxs < 19 * b
      | Sleep t d \<Rightarrow> wrap64 (t + d) \<le> maxBatchTime e)"

text \<open>The trace of \<open>s\<close> is \<open>pre\<close> followed by events that are all right.\<close>

definition log_ok :: "event list \<Rightarrow> env \<Rightarrow> batchJob \<Rightarrow> state \<Rightarrow> bool" where
  "log_ok pre e j s \<longleftrightarrow> (\<exists>evs. trace s = pre @ evs \<and> (\<forall>ev\<in>set evs. event_ok e j ev))"

text \<open>The invariant of the main loop about the batch that is being collected: the
  two slices grow together, hold indices of the job, and the batch is within the
  budget it was admitted against.\<close>

definition pending_ok :: "batchJob \<Rightarrow> state \<Rightarrow> bool" where
  "pending_ok j s \<longleftrightarrow>
     (batch s = [] \<longleftrightarrow> origIndex s = [])
     \<and> (\<forall>i\<in>set (origIndex s). i < length (texts j))
     \<and> (tokens_ok j \<and> origIndex s \<noteq> [] \<and> budget s \<le> 2 ^ 24 \<longrightarrow>
          20 * batch_tokens j (origIndex s) < 19 * budget s)"

text \<open>The invariant of the main loop about its running sum: while a batch is being
  collected the rate limits are the ones it was admitted against, and
  \<open>tokensInCurrentBatch\<close> is the token sum of the batch.\<close>

definition accum_ok :: "batchJob \<Rightarrow> state \<Rightarrow> bool" where
  "accum_ok j s \<longleftrightarrow>
     (origIndex s = [] \<longrightarrow> tokensInCurrentBatch s = 0)
     \<and> (origIndex s \<noteq> [] \<longrightarrow>
          (\<exists>rl. rateLimit s = Some rl \<and> RemainingTokens rl = budget s)
          \<and> (tokens_ok j \<and> budget s \<le> 2 ^ 24 \<longrightarrow>
               tokensInCurrentBatch s = batch_tokens j (origIndex s)))"

definition is_call :: "event \<Rightarrow> bool" where
  "is_call ev = (case ev of Call idxs b \<Rightarrow> True | Sleep t d \<Rightarrow> False)"

text \<open>The worker with a poisoned time per token and nothing collected.\<close>

definition stuck :: "state \<Rightarrow> bool" where
  "stuck s \<longleftrightarrow>
     poisoned (timePerToken s) \<and> batch s = [] \<and> origIndex s = []
     \<and> tokensInCurrentBatch s = 0"

definition empty_call :: "event \<Rightarrow> bool" where
  "empty_call ev = (case ev of Call idxs b \<Rightarrow> idxs = [] | Sleep t d \<Rightarrow> True)"

text \<open>The trace of \<open>s\<close> is \<open>pre\<close> followed by sleeps and calls for no object.\<close>

definition calls_empty :: "event list \<Rightarrow> state \<Rightarrow> bool" where
  "calls_empty pre s \<longleftrightarrow> (\<exists>evs. trace s = pre @ evs \<and> list_all empty_call evs)"

section \<open>Properties\<close>

subsection \<open>Integers and rounding\<close>

lemma wrap64_id: "- (2 ^ 63) \<le> x \<Longrightarrow> x < 2 ^ 63 \<Longrightarrow> wrap64 x = x"
  by (simp add: wrap64_def)

lemma bitlen_powi_bounds:
  assumes "0 < (n::int)"
  shows "(2::rat) powi (bitlen n - 1) \<le> of_int n" and "of_int n < (2::rat) powi bitlen n"
proof -
  have b: "2 ^ nat (bitlen n - 1) \<le> n" "n < 2 ^ nat (bitlen n)"
    using bitlen_bounds[OF assms] by auto
  have p: "1 \<le> bitlen n" using assms by (simp add: bitlen_alt_def)
  have "(of_int (2 ^ nat (bitlen n - 1)) :: rat) \<le> of_int n"
    using b(1) by (simp only: of_int_le_iff)
  then show "(2::rat) powi (bitlen n - 1) \<le> of_int n"
    using p by (simp add: power_int_def)
  have "(of_int n :: rat) < of_int (2 ^ nat (bitlen n))"
    using b(2) by (simp only: of_int_less_iff)
  then show "of_int n < (2::rat) powi bitlen n"
    using p by (simp add: power_int_def)
qed

lemma ilog2_bounds:
  assumes "0 < a"
  shows "2 powi ilog2 a \<le> a" and "a < 2 powi (ilog2 a + 1)"
proof -
  obtain n d where q: "quotient_of a = (n, d)" by (cases "quotient_of a")
  have d: "0 < d" using q by (rule quotient_of_denom_pos)
  have a: "a = of_int n / of_int d" using q by (rule quotient_of_div)
  have n: "0 < n" using assms d a by (simp add: zero_less_divide_iff)
  define k where "k = bitlen n - bitlen d"
  note bn = bitlen_powi_bounds[OF n] and bd = bitlen_powi_bounds[OF d]
  have "of_int n / of_int d < (2::rat) powi bitlen n / 2 powi (bitlen d - 1)"
    using bn(2) bd(1) n d by (intro frac_less) simp_all
  also have "\<dots> = 2 powi (k + 1)"
    by (simp add: k_def power_int_diff [symmetric] algebra_simps)
  finally have up: "a < 2 powi (k + 1)" by (simp add: a)
  have "(2::rat) powi (bitlen n - 1) / 2 powi bitlen d \<le> of_int n / of_int d"
    using bn(1) bd(2) n d by (intro frac_le) simp_all
  moreover have "(2::rat) powi (bitlen n - 1) / 2 powi bitlen d = 2 powi (k - 1)"
    by (simp add: k_def power_int_diff [symmetric] algebra_simps)
  ultimately have lo: "2 powi (k - 1) \<le> a" by (simp add: a)
  have il: "ilog2 a = (if 2 powi k \<le> a then k else k - 1)"
    by (simp add: ilog2_def q k_def)
  show "2 powi ilog2 a \<le> a" using lo by (simp add: il)
  show "a < 2 powi (ilog2 a + 1)" using up by (auto simp add: il)
qed

lemma ilog2_ge:
  assumes "(2::rat) powi k \<le> a"
  shows "k \<le> ilog2 a"
proof (rule ccontr)
  assume "\<not> k \<le> ilog2 a"
  then have "ilog2 a + 1 \<le> k" by simp
  then have "(2::rat) powi (ilog2 a + 1) \<le> 2 powi k"
    by (intro power_int_increasing) simp_all
  moreover have "0 < a" using assms by (rule less_le_trans [rotated]) simp
  ultimately show False using assms ilog2_bounds(2)[of a] by simp
qed

lemma round_half_even_le: "x \<le> of_int z \<Longrightarrow> round_half_even x \<le> z"
  by (auto simp add: round_half_even_def Let_def floor_le_iff le_floor_iff)

lemma round_half_even_ge:
  assumes "of_int z \<le> x"
  shows "z \<le> round_half_even x"
proof -
  have "z \<le> \<lfloor>x\<rfloor>" using assms by (simp add: le_floor_iff)
  then show ?thesis by (simp add: round_half_even_def Let_def)
qed

lemma round_half_even_of_int [simp]: "round_half_even (of_int z) = z"
  by (simp add: round_half_even_def)

lemma rnd_pos_eq:
  "0 < x \<Longrightarrow> rnd p x =
     of_int (round_half_even (x / 2 powi (ilog2 x - int p + 1))) * 2 powi (ilog2 x - int p + 1)"
  by (simp add: rnd_def Let_def)

lemma rnd_minus: "rnd p (- x) = - rnd p x"
  by (simp add: rnd_def Let_def)

lemma rnd_0 [simp]: "rnd p 0 = 0"
  by (simp add: rnd_def)

lemma pow_as_powi:
  assumes "0 < p"
  shows "(of_int (2 ^ (p - 1)) :: rat) = 2 powi (int p - 1)"
proof -
  have "int p - 1 = int (p - 1)" using assms by simp
  then show ?thesis by (simp only: power_int_of_nat of_int_power of_int_numeral)
qed

lemma ulp_split:
  assumes "0 < p"
  shows "(2::rat) powi e = of_int (2 ^ (p - 1)) * 2 powi (e - int p + 1)"
proof -
  have "(2::rat) powi (int p - 1) * 2 powi (e - int p + 1) = 2 powi ((int p - 1) + (e - int p + 1))"
    by (rule power_int_add [symmetric]) simp
  also have "(int p - 1) + (e - int p + 1) = e" by simp
  finally show ?thesis by (simp only: pow_as_powi[OF assms])
qed

lemma rnd_ge_powi:
  assumes "0 < x" and "0 < p"
  shows "2 powi ilog2 x \<le> rnd p x"
proof -
  define u :: rat where "u = 2 powi (ilog2 x - int p + 1)"
  have u: "0 < u" by (simp add: u_def)
  have pu: "2 powi ilog2 x = of_int (2 ^ (p - 1)) * u"
    unfolding u_def by (rule ulp_split[OF assms(2)])
  have "of_int (2 ^ (p - 1)) * u \<le> x"
    using ilog2_bounds(1)[OF assms(1)] by (simp only: pu)
  then have "of_int (2 ^ (p - 1)) \<le> x / u"
    using u by (simp only: pos_le_divide_eq)
  then have "2 ^ (p - 1) \<le> round_half_even (x / u)" by (rule round_half_even_ge)
  then have "(of_int (2 ^ (p - 1)) :: rat) \<le> of_int (round_half_even (x / u))"
    by (simp only: of_int_le_iff)
  then have "of_int (2 ^ (p - 1)) * u \<le> of_int (round_half_even (x / u)) * u"
    using u by (rule_tac mult_right_mono) simp_all
  then show ?thesis by (simp only: rnd_pos_eq[OF assms(1)] pu u_def)
qed

lemma rnd_pos: "0 < x \<Longrightarrow> 0 < p \<Longrightarrow> 0 < rnd p x"
  using rnd_ge_powi [of x p] by (rule_tac less_le_trans [of _ "2 powi ilog2 x"]) simp_all

lemma rnd_nonneg: "0 \<le> x \<Longrightarrow> 0 < p \<Longrightarrow> 0 \<le> rnd p x"
  using rnd_pos [of x p] by (cases "x = 0") simp_all

lemma rnd_nonpos: "x \<le> 0 \<Longrightarrow> 0 < p \<Longrightarrow> rnd p x \<le> 0"
  using rnd_nonneg [of "- x" p] by (simp add: rnd_minus)

lemma rnd_eq_0_iff: "0 < p \<Longrightarrow> rnd p x = 0 \<longleftrightarrow> x = 0"
  using rnd_pos [of x p] rnd_pos [of "- x" p] by (cases x "0::rat" rule: linorder_cases) (auto simp: rnd_minus)

lemma rnd_exact:
  assumes "0 < x" and "x / 2 powi (ilog2 x - int p + 1) = of_int k"
  shows "rnd p x = x"
proof -
  have "of_int k * 2 powi (ilog2 x - int p + 1) = x"
    using assms(2) by (simp add: field_simps)
  then show ?thesis by (simp add: rnd_pos_eq[OF assms(1)] assms(2))
qed


lemma powi_le_cancel:
  assumes "(2::rat) powi a \<le> 2 powi b"
  shows "a \<le> b"
proof (rule ccontr)
  assume "\<not> a \<le> b"
  then have "(2::rat) powi b < 2 powi a"
    by (intro power_int_strict_increasing) simp_all
  with assms show False by simp
qed

lemma powi_nonpos:
  assumes "k \<le> 0"
  shows "(2::rat) powi k = 1 / of_int (2 ^ nat (- k))"
proof -
  have "(2::rat) powi k = 2 powi (- (int (nat (- k))))" using assms by simp
  also have "\<dots> = 1 / 2 ^ nat (- k)"
    by (simp only: power_int_minus_divide power_int_of_nat)
  finally show ?thesis by simp
qed

lemma rnd_of_int_exact_pos:
  assumes "0 < z" and "z \<le> 2 ^ p" and "0 < p"
  shows "rnd p (of_int z) = of_int z"
proof -
  let ?x = "of_int z :: rat"
  have x: "0 < ?x" using assms(1) by simp
  show ?thesis
  proof (cases "ilog2 ?x < int p")
    case True
    then have k: "ilog2 ?x - int p + 1 \<le> 0" by simp
    have "?x / 2 powi (ilog2 ?x - int p + 1) =
            ?x / (1 / of_int (2 ^ nat (- (ilog2 ?x - int p + 1))))"
      by (simp only: powi_nonpos[OF k])
    also have "\<dots> = of_int (z * 2 ^ nat (- (ilog2 ?x - int p + 1)))"
      by simp
    finally show ?thesis by (rule rnd_exact[OF x])
  next
    case False
    then have "(2::rat) powi int p \<le> 2 powi ilog2 ?x"
      by (intro power_int_increasing) simp_all
    also have "\<dots> \<le> ?x" by (rule ilog2_bounds(1)[OF x])
    finally have "(2::rat) ^ p \<le> of_int z" by (simp only: power_int_of_nat)
    then have "(of_int (2 ^ p) :: rat) \<le> of_int z" by simp
    then have "2 ^ p \<le> z" by (simp only: of_int_le_iff)
    with assms(2) have z: "z = 2 ^ p" by simp
    have "(2::rat) powi ilog2 ?x \<le> 2 powi int p"
      using ilog2_bounds(1)[OF x] by (simp add: z)
    then have "ilog2 ?x \<le> int p" by (rule powi_le_cancel)
    with False have e: "ilog2 ?x = int p" by simp
    have "(2::rat) ^ p = 2 * 2 ^ (p - 1)"
      using assms(3) by (cases p) simp_all
    then have "?x = 2 * of_int (2 ^ (p - 1))"
      by (simp add: z)
    moreover have "(2::rat) powi (ilog2 ?x - int p + 1) = 2"
      by (simp add: e)
    ultimately have "?x / 2 powi (ilog2 ?x - int p + 1) = of_int (2 ^ (p - 1))"
      by simp
    then show ?thesis by (rule rnd_exact[OF x])
  qed
qed

lemma rnd_of_int_exact:
  assumes "\<bar>z\<bar> \<le> 2 ^ p" and "0 < p"
  shows "rnd p (of_int z) = of_int z"
proof (cases z "0::int" rule: linorder_cases)
  case less
  then have "rnd p (of_int (- z)) = of_int (- z)"
    using assms by (intro rnd_of_int_exact_pos) simp_all
  then show ?thesis by (simp add: rnd_minus)
next
  case equal
  then show ?thesis by simp
next
  case greater
  then show ?thesis using assms by (intro rnd_of_int_exact_pos) simp_all
qed

lemma rnd_le_int:
  assumes "0 < x" and "x \<le> of_int z" and "z \<le> 2 ^ p" and "0 < p"
  shows "rnd p x \<le> of_int z"
proof (cases "ilog2 x < int p")
  case True
  define w where "w = nat (- (ilog2 x - int p + 1))"
  have k: "ilog2 x - int p + 1 \<le> 0" using True by simp
  have u: "(2::rat) powi (ilog2 x - int p + 1) = 1 / of_int (2 ^ w)"
    unfolding w_def by (rule powi_nonpos[OF k])
  have "x * of_int (2 ^ w) \<le> of_int z * of_int (2 ^ w)"
    using assms(2) by (intro mult_right_mono) simp_all
  then have "x / 2 powi (ilog2 x - int p + 1) \<le> of_int (z * 2 ^ w)"
    by (simp add: u)
  then have "round_half_even (x / 2 powi (ilog2 x - int p + 1)) \<le> z * 2 ^ w"
    by (rule round_half_even_le)
  then have "(of_int (round_half_even (x / 2 powi (ilog2 x - int p + 1))) :: rat) \<le> of_int (z * 2 ^ w)"
    by (simp only: of_int_le_iff)
  then have "of_int (round_half_even (x / 2 powi (ilog2 x - int p + 1))) / of_int (2 ^ w) \<le> (of_int z :: rat)"
    by (simp add: pos_divide_le_eq)
  then show ?thesis by (simp add: rnd_pos_eq[OF assms(1)] u)
next
  case False
  then have "(2::rat) powi int p \<le> 2 powi ilog2 x"
    by (intro power_int_increasing) simp_all
  also have "\<dots> \<le> x" by (rule ilog2_bounds(1)[OF assms(1)])
  finally have "(2::rat) ^ p \<le> x" by (simp only: power_int_of_nat)
  moreover have "(of_int z :: rat) \<le> of_int (2 ^ p)" using assms(3) by (simp only: of_int_le_iff)
  then have "(of_int z :: rat) \<le> 2 ^ p" by simp
  ultimately have xz: "x = of_int z" using assms(2) by linarith
  have "(0::rat) < of_int z" using assms(1,2) by (rule less_le_trans)
  then have "0 < z" by (simp only: of_int_0_less_iff)
  then have "rnd p (of_int z) = of_int z" using assms(3,4) by (rule rnd_of_int_exact_pos)
  then show ?thesis by (simp only: xz order_refl)
qed

lemma rnd_int_ge_pow:
  assumes "2 ^ p \<le> z" and "0 < p"
  shows "(2::rat) ^ p \<le> rnd p (of_int z)"
proof -
  have "(of_int (2 ^ p) :: rat) \<le> of_int z" using assms(1) by (simp only: of_int_le_iff)
  then have le: "(2::rat) powi int p \<le> of_int z" by (simp add: power_int_of_nat)
  then have x: "0 < (of_int z :: rat)" by (rule less_le_trans [rotated]) simp
  have "int p \<le> ilog2 (of_int z)" using le by (rule ilog2_ge)
  then have "(2::rat) powi int p \<le> 2 powi ilog2 (of_int z)"
    by (intro power_int_increasing) simp_all
  also have "\<dots> \<le> rnd p (of_int z)" by (rule rnd_ge_powi[OF x assms(2)])
  finally show ?thesis by (simp only: power_int_of_nat)
qed

lemma float32_095: "rnd 24 (19 / 20) * 16777216 = 15938355"
  by code_simp

subsection \<open>The admission test and the time per token\<close>

lemma float32_095_value: "rnd 24 (19 / 20) = 15938355 / 16777216"
  using float32_095 by (simp add: field_simps)

lemma admits_bound:
  assumes adm: "admits rl tpt tib tok n"
    and T0: "0 \<le> tib + tok" and T1: "tib + tok < 2 ^ 63"
    and R: "RemainingTokens rl \<le> 2 ^ 24"
  shows "20 * (tib + tok) < 19 * RemainingTokens rl"
proof -
  define T where "T = tib + tok"
  define c :: rat where "c = 15938355 / 16777216"
  have w: "wrap64 (tib + tok) = T" using T0 T1 by (simp add: wrap64_id T_def)
  have less: "rnd 24 (of_int T) < rnd 24 (c * rnd 24 (of_int (RemainingTokens rl)))"
    using adm by (simp add: admits_def f_less_def f_mul_def f_of_int_def w float32_095_value c_def)
  have T_nonneg: "0 \<le> rnd 24 (of_int T)"
    using T0 by (intro rnd_nonneg) (simp_all add: T_def)
  show ?thesis
  proof (cases "0 < RemainingTokens rl")
    case False
    then have "rnd 24 (of_int (RemainingTokens rl)) \<le> 0"
      by (intro rnd_nonpos) simp_all
    then have "c * rnd 24 (of_int (RemainingTokens rl)) \<le> 0"
      by (simp add: c_def mult_le_0_iff)
    then have "rnd 24 (c * rnd 24 (of_int (RemainingTokens rl))) \<le> 0"
      by (intro rnd_nonpos) simp_all
    with less T_nonneg show ?thesis by simp
  next
    case True
    define p0 :: rat where "p0 = c * of_int (RemainingTokens rl)"
    have ex: "rnd 24 (of_int (RemainingTokens rl)) = of_int (RemainingTokens rl)"
      using True R by (intro rnd_of_int_exact) simp_all
    have p0: "0 < p0" using True by (simp add: p0_def c_def)
    have p0R: "p0 \<le> of_int (RemainingTokens rl)"
      using True by (simp add: p0_def c_def)
    then have "\<lceil>p0\<rceil> \<le> RemainingTokens rl" by (simp add: ceiling_le_iff)
    then have z: "\<lceil>p0\<rceil> \<le> 2 ^ 24" using R by (rule order_trans)
    have up: "rnd 24 p0 \<le> of_int \<lceil>p0\<rceil>"
      using p0 _ z by (rule rnd_le_int) simp_all
    have less': "rnd 24 (of_int T) < of_int \<lceil>p0\<rceil>"
      using less up by (simp add: ex p0_def)
    have "T < 2 ^ 24"
    proof (rule ccontr)
      assume "\<not> T < 2 ^ 24"
      then have "(2::rat) ^ 24 \<le> rnd 24 (of_int T)"
        by (intro rnd_int_ge_pow) simp_all
      moreover have "(of_int \<lceil>p0\<rceil> :: rat) \<le> of_int (2 ^ 24)"
        using z by (simp only: of_int_le_iff)
      then have "(of_int \<lceil>p0\<rceil> :: rat) \<le> 2 ^ 24"
        by (simp only: of_int_power of_int_numeral)
      ultimately show False using less' by linarith
    qed
    then have "rnd 24 (of_int T) = of_int T"
      using T0 by (intro rnd_of_int_exact) (simp_all add: T_def)
    with less' have "(of_int T :: rat) < of_int \<lceil>p0\<rceil>" by simp
    then have "T < \<lceil>p0\<rceil>" by (simp only: of_int_less_iff)
    then have "of_int T < p0" by (simp add: less_ceiling_iff)
    also have "p0 < 19 / 20 * of_int (RemainingTokens rl)"
      using True by (simp add: p0_def c_def)
    finally have "(of_int (20 * T) :: rat) < of_int (19 * RemainingTokens rl)"
      by simp
    then have "20 * T < 19 * RemainingTokens rl" by (simp only: of_int_less_iff)
    then show ?thesis by (simp add: T_def)
  qed
qed

lemma Seconds_Fin:
  "\<exists>x. Seconds d = Fin x \<and> (0 \<le> d \<longrightarrow> 0 \<le> x)"
proof -
  define a where "a = rnd 53 (of_int (quo d Second))"
  define b where "b = rnd 53 (rnd 53 (of_int (rem d Second)) / 1000000000)"
  have S: "Seconds d = Fin (rnd 53 (a + b))"
    by (simp add: Seconds_def f_add_def f_div_def f_of_int_def a_def b_def)
  have "0 \<le> rnd 53 (a + b)" if "0 \<le> d"
  proof -
    have qd: "quo d Second = d div Second"
      using that by (cases "d = 0") (simp_all add: quo_def Second_def)
    have q: "0 \<le> quo d Second"
      unfolding qd using that by (simp add: Second_def pos_imp_zdiv_nonneg_iff)
    have "rem d Second = d mod Second"
      by (simp add: rem_def qd minus_mult_div_eq_mod)
    then have r: "0 \<le> rem d Second" by (simp add: Second_def)
    have "0 \<le> a" unfolding a_def using q by (intro rnd_nonneg) simp_all
    moreover have "0 \<le> b" unfolding b_def using r by (intro rnd_nonneg divide_nonneg_nonneg) simp_all
    ultimately show ?thesis by (intro rnd_nonneg) simp_all
  qed
  with S show ?thesis by blast
qed

lemma f_of_int_0 [simp]: "f_of_int p 0 = Fin 0"
  by (simp add: f_of_int_def)

lemma time_per_token_zero_poisoned:
  assumes "0 \<le> d"
  shows "poisoned (time_per_token d 0)"
proof -
  obtain x where "Seconds d = Fin x" "0 \<le> x" using Seconds_Fin[of d] assms by blast
  then show ?thesis by (simp add: time_per_token_def f_div_def poisoned_def)
qed

lemma time_per_token_finite_iff:
  "is_finite (time_per_token d k) \<longleftrightarrow> k \<noteq> 0"
proof -
  obtain x where "Seconds d = Fin x" using Seconds_Fin[of d] by blast
  then show ?thesis
    by (simp add: time_per_token_def f_div_def f_of_int_def is_finite_def rnd_eq_0_iff)
qed

lemma poisoned_blocks:
  assumes "poisoned t" and "0 \<le> tib"
  shows "\<not> admits rl t tib tok n"
proof -
  have "0 \<le> rnd 53 (of_int tib)" using assms(2) by (intro rnd_nonneg) simp_all
  then have "\<not> f_less (f_mul 53 t (f_of_int 53 tib)) OpenAiMaxTimePerBatch"
    using assms(1)
    by (auto simp add: poisoned_def f_mul_def f_of_int_def f_less_def OpenAiMaxTimePerBatch_def
          split: if_splits)
  then show ?thesis by (simp add: admits_def)
qed

subsection \<open>What a client call changes\<close>

lemma same_vars_refl [simp]: "same_vars s s"
  by (simp add: same_vars_def)

lemma same_vars_trans: "same_vars a b \<Longrightarrow> same_vars b c \<Longrightarrow> same_vars a c"
  by (simp add: same_vars_def)

lemma same_vars_D:
  assumes "same_vars a b"
  shows "b = a\<lparr>jerrs := jerrs b, jvecs := jvecs b\<rparr>"
proof -
  from assms have "(a\<lparr>jerrs := Map.empty, jvecs := []\<rparr>)\<lparr>jerrs := jerrs b, jvecs := jvecs b\<rparr>
      = (b\<lparr>jerrs := Map.empty, jvecs := []\<rparr>)\<lparr>jerrs := jerrs b, jvecs := jvecs b\<rparr>"
    by (simp only: same_vars_def)
  then show ?thesis by simp
qed

lemma store_result_frame: "same_vars (vars_of g) (vars_of (store_result r oi j g))"
  by (simp add: same_vars_def store_result_def vars_of_def split: go.splits option.splits)

lemma store_error_frame: "same_vars (vars_of g) (vars_of (store_error x oi j g))"
  by (simp add: same_vars_def store_error_def vars_of_def split: go.splits)

lemma fold_store_frame:
  assumes step: "\<And>j g. same_vars (vars_of g) (vars_of (f j g))"
  shows "same_vars (vars_of g) (vars_of (fold f js g))"
proof (induction js arbitrary: g)
  case Nil
  show ?case by simp
next
  case (Cons j js)
  have "same_vars (vars_of g) (vars_of (f j g))" by (rule step)
  moreover have "same_vars (vars_of (f j g)) (vars_of (fold f js (f j g)))" by (rule Cons.IH)
  ultimately show ?case by (simp add: same_vars_trans)
qed

lemma makeRequest_frame:
  "same_vars (s\<lparr>ncalls := ncalls s + 1, trace := trace s @ [Call oi (budget s)]\<rparr>)
     (case makeRequest e ts oi s of Ret (s1, rl, er) \<Rightarrow> s1 | Panics p s1 \<Rightarrow> s1)"
proof -
  let ?s = "s\<lparr>ncalls := ncalls s + 1, trace := trace s @ [Call oi (budget s)]\<rparr>"
  define g where "g = (case err (Vectorize e (ncalls s) ts) of
                 Some er \<Rightarrow> fold (store_error er oi) [0..<length ts] (Ret ?s)
               | None \<Rightarrow>
                   (case res (Vectorize e (ncalls s) ts) of
                      None \<Rightarrow> if ts = [] then Ret ?s else Panics NilDereference ?s
                    | Some vr \<Rightarrow> fold (store_result vr oi) [0..<length ts] (Ret ?s)))"
  have m: "makeRequest e ts oi s =
      (case g of Panics p s2 \<Rightarrow> Panics p s2
               | Ret s2 \<Rightarrow> Ret (s2, limits (Vectorize e (ncalls s) ts), err (Vectorize e (ncalls s) ts)))"
    unfolding makeRequest_def Let_def g_def by (rule refl)
  have v: "(case makeRequest e ts oi s of Ret (s1, rl, er) \<Rightarrow> s1 | Panics p s1 \<Rightarrow> s1) = vars_of g"
    by (cases g) (simp_all add: m vars_of_def)
  have "same_vars (vars_of (Ret ?s)) (vars_of g)"
  proof (cases "err (Vectorize e (ncalls s) ts)")
    case (Some x)
    then have "g = fold (store_error x oi) [0..<length ts] (Ret ?s)" by (simp add: g_def)
    then show ?thesis by (simp only: fold_store_frame[of "store_error x oi", OF store_error_frame])
  next
    case None
    show ?thesis
    proof (cases "res (Vectorize e (ncalls s) ts)")
      case N: None
      then show ?thesis using None by (simp add: g_def vars_of_def)
    next
      case (Some vr)
      with None have "g = fold (store_result vr oi) [0..<length ts] (Ret ?s)" by (simp add: g_def)
      then show ?thesis by (simp only: fold_store_frame[of "store_result vr oi", OF store_result_frame])
    qed
  qed
  then show ?thesis by (simp add: v vars_of_def)
qed

lemma makeRequest_Ret:
  assumes "makeRequest e ts oi s = Ret (s1, rl, er)"
  obtains E V where "s1 = s\<lparr>ncalls := ncalls s + 1, trace := trace s @ [Call oi (budget s)],
       jerrs := E, jvecs := V\<rparr>"
proof -
  from makeRequest_frame[of s oi e ts] assms
  have "same_vars (s\<lparr>ncalls := ncalls s + 1, trace := trace s @ [Call oi (budget s)]\<rparr>) s1"
    by simp
  from same_vars_D[OF this] show ?thesis by (rule that)
qed

lemma makeRequest_Panics:
  assumes "makeRequest e ts oi s = Panics p s1"
  obtains E V where "s1 = s\<lparr>ncalls := ncalls s + 1, trace := trace s @ [Call oi (budget s)],
       jerrs := E, jvecs := V\<rparr>"
proof -
  from makeRequest_frame[of s oi e ts] assms
  have "same_vars (s\<lparr>ncalls := ncalls s + 1, trace := trace s @ [Call oi (budget s)]\<rparr>) s1"
    by simp
  from same_vars_D[OF this] show ?thesis by (rule that)
qed

subsection \<open>The invariants of the main loop\<close>

lemma log_ok_snoc:
  "log_ok pre e j s \<Longrightarrow> event_ok e j ev \<Longrightarrow> trace s' = trace s @ [ev] \<Longrightarrow> log_ok pre e j s'"
  by (auto simp add: log_ok_def)

lemma log_ok_same: "log_ok pre e j s \<Longrightarrow> trace s' = trace s \<Longrightarrow> log_ok pre e j s'"
  by (simp add: log_ok_def)

lemma event_ok_Sleep [simp]:
  "event_ok e j (Sleep t d) \<longleftrightarrow> wrap64 (t + d) \<le> maxBatchTime e"
  by (simp add: event_ok_def)

lemma batch_tokens_nonneg:
  "tokens_ok j \<Longrightarrow> \<forall>i\<in>set idxs. i < length (texts j) \<Longrightarrow> 0 \<le> batch_tokens j idxs"
  by (auto simp add: batch_tokens_def tokens_ok_def intro!: sum_list_nonneg)

lemma batch_tokens_snoc [simp]:
  "batch_tokens j (idxs @ [i]) = batch_tokens j idxs + tokens j ! i"
  by (simp add: batch_tokens_def)

lemma batch_tokens_Nil [simp]: "batch_tokens j [] = 0"
  by (simp add: batch_tokens_def)

lemma pending_call_ok: "pending_ok j s \<Longrightarrow> event_ok e j (Call (origIndex s) (budget s))"
  by (auto simp add: pending_ok_def event_ok_def)

lemma pending_ok_empty: "batch s = [] \<Longrightarrow> origIndex s = [] \<Longrightarrow> pending_ok j s"
  by (simp add: pending_ok_def)

lemma accum_ok_empty: "origIndex s = [] \<Longrightarrow> tokensInCurrentBatch s = 0 \<Longrightarrow> accum_ok j s"
  by (simp add: accum_ok_def)

lemma mark_from_fields [simp]:
  "batch (mark_from x k j s) = batch s"
  "origIndex (mark_from x k j s) = origIndex s"
  "budget (mark_from x k j s) = budget s"
  "trace (mark_from x k j s) = trace s"
  "timePerToken (mark_from x k j s) = timePerToken s"
  "tokensInCurrentBatch (mark_from x k j s) = tokensInCurrentBatch s"
  "objCounter (mark_from x k j s) = objCounter s"
  by (simp_all add: mark_from_def)

lemma token_wait_fields [simp]:
  "batch (token_wait e j rl s) = batch s"
  "origIndex (token_wait e j rl s) = origIndex s"
  "budget (token_wait e j rl s) = budget s"
  "timePerToken (token_wait e j rl s) = timePerToken s"
  "tokensInCurrentBatch (token_wait e j rl s) = tokensInCurrentBatch s"
  by (simp_all add: token_wait_def Let_def)

lemma start_job_fields [simp]:
  "batch (start_job j s) = []" "origIndex (start_job j s) = []"
  "tokensInCurrentBatch (start_job j s) = 0" "trace (start_job j s) = trace s"
  "timePerToken (start_job j s) = timePerToken s"
  by (simp_all add: start_job_def)

text \<open>Line 192 to 196: an object that is admitted keeps the batch within the budget
  the test has read.\<close>

lemma admit_keeps_invariants:
  assumes oc: "objCounter s < length (texts j)"
    and p: "pending_ok j s" and a: "accum_ok j s"
    and rl: "rateLimit s = Some rl"
    and adm: "admits rl (timePerToken s) (tokensInCurrentBatch s) (tokens j ! objCounter s)
                (length (batch s))"
  defines "s1 \<equiv> s\<lparr>tokensInCurrentBatch :=
                      wrap64 (tokensInCurrentBatch s + tokens j ! objCounter s),
                    batch := batch s @ [texts j ! objCounter s],
                    origIndex := origIndex s @ [objCounter s],
                    objCounter := objCounter s + 1,
                    budget := RemainingTokens rl\<rparr>"
  shows "pending_ok j s1 \<and> accum_ok j s1"
proof (cases "tokens_ok j \<and> RemainingTokens rl \<le> 2 ^ 24")
  case False
  then show ?thesis using p oc rl by (auto simp add: pending_ok_def accum_ok_def s1_def)
next
  case True
  then have tok: "tokens_ok j" and small: "RemainingTokens rl \<le> 2 ^ 24" by simp_all
  have t: "0 \<le> tokens j ! objCounter s" "tokens j ! objCounter s < 2 ^ 62"
    using tok oc by (simp_all add: tokens_ok_def)
  have tib: "tokensInCurrentBatch s = batch_tokens j (origIndex s)
           \<and> 0 \<le> tokensInCurrentBatch s \<and> tokensInCurrentBatch s < 2 ^ 24"
  proof (cases "origIndex s = []")
    case True
    then show ?thesis using a by (simp add: accum_ok_def)
  next
    case False
    with a rl have b: "budget s = RemainingTokens rl" by (auto simp add: accum_ok_def)
    with False a small tok have eq: "tokensInCurrentBatch s = batch_tokens j (origIndex s)"
      by (simp add: accum_ok_def)
    have "20 * batch_tokens j (origIndex s) < 19 * budget s"
      using p False small b tok by (simp add: pending_ok_def)
    moreover have "0 \<le> batch_tokens j (origIndex s)"
      using tok p by (intro batch_tokens_nonneg) (simp_all add: pending_ok_def)
    ultimately show ?thesis using eq small b by simp
  qed
  have range: "0 \<le> tokensInCurrentBatch s + tokens j ! objCounter s"
      "tokensInCurrentBatch s + tokens j ! objCounter s < 2 ^ 63"
    using tib t by simp_all
  have bound: "20 * (tokensInCurrentBatch s + tokens j ! objCounter s) < 19 * RemainingTokens rl"
    using adm range small by (rule admits_bound)
  have w: "wrap64 (tokensInCurrentBatch s + tokens j ! objCounter s)
             = tokensInCurrentBatch s + tokens j ! objCounter s"
    using range by (simp add: wrap64_id)
  from tib have eq: "tokensInCurrentBatch s = batch_tokens j (origIndex s)" by simp
  show ?thesis
    using p oc rl bound[unfolded eq]
    by (simp add: pending_ok_def accum_ok_def s1_def w[unfolded eq] eq)
qed

lemma token_wait_keeps:
  assumes "origIndex s = []" and "pending_ok j s" and "accum_ok j s" and "log_ok pre e j s"
  shows "pending_ok j (token_wait e j rl s) \<and> accum_ok j (token_wait e j rl s)
         \<and> log_ok pre e j (token_wait e j rl s)"
proof -
  have "pending_ok j (token_wait e j rl s)"
    using assms(2) by (simp add: pending_ok_def)
  moreover have "accum_ok j (token_wait e j rl s)"
    using assms(1,3) by (intro accum_ok_empty) (simp_all add: accum_ok_def)
  moreover have "log_ok pre e j (token_wait e j rl s)"
    using assms(4) by (auto simp add: log_ok_def token_wait_def Let_def)
  ultimately show ?thesis by simp
qed

text \<open>What \<open>dispatch\<close> does after a client call that has returned.\<close>

lemma dispatch_after_call:
  fixes rl :: RateLimits
  assumes "makeRequest e (batch s) (origIndex s) s = Ret (s1, rateLimitNew, er)"
  defines "rl1 \<equiv> (case rateLimitNew of Some r \<Rightarrow> r | None \<Rightarrow> rl)"
  defines "s2 \<equiv> s1\<lparr>timePerToken := time_per_token (took e (ncalls s)) (tokensInCurrentBatch s),
                    rateLimit := Some rl1\<rparr>"
  defines "now \<equiv> since e (nclock s2)"
  defines "wait \<equiv> wrap64 (ResetRequests rl1 * Second)"
  defines "s3 \<equiv> s2\<lparr>nclock := nclock s2 + 1\<rparr>"
  shows "dispatch e j rl s =
     (if RemainingRequests rl1 = 0 \<and> 0 < ResetRequests rl1 then
        if maxBatchTime e < wrap64 (now + wait) then
          (case origIndex s3 of
             [] \<Rightarrow> Crash IndexOutOfRange s3
           | i0 # _ \<Rightarrow> Break (mark_from RequestRateLimit i0 j s3))
        else Continue (reset_batch (s3\<lparr>trace := trace s3 @ [Sleep now wait]\<rparr>))
      else Continue (reset_batch s2))"
  unfolding dispatch_def assms(1) rl1_def s2_def now_def wait_def s3_def
  by (simp only: go.case prod.case Let_def)

lemma dispatch_keeps:
  assumes p: "pending_ok j s" and l: "log_ok pre e j s"
  shows "case dispatch e j rl s of
           Continue s' \<Rightarrow> pending_ok j s' \<and> accum_ok j s' \<and> log_ok pre e j s'
         | Break s' \<Rightarrow> pending_ok j s' \<and> log_ok pre e j s'
         | Crash x s' \<Rightarrow> log_ok pre e j s'"
proof (cases "makeRequest e (batch s) (origIndex s) s")
  case (Panics x s1)
  from makeRequest_Panics[OF Panics] obtain E V where
    s1: "s1 = s\<lparr>ncalls := ncalls s + 1,
      trace := trace s @ [Call (origIndex s) (budget s)], jerrs := E, jvecs := V\<rparr>" .
  have "log_ok pre e j s1"
    using l pending_call_ok[OF p] by (rule log_ok_snoc) (simp add: s1)
  then show ?thesis by (simp add: dispatch_def Panics)
next
  case (Ret r)
  obtain s1 rateLimitNew er where r: "r = (s1, rateLimitNew, er)" by (cases r)
  note call = Ret[unfolded r]
  from makeRequest_Ret[OF call] obtain E V where
    s1: "s1 = s\<lparr>ncalls := ncalls s + 1,
      trace := trace s @ [Call (origIndex s) (budget s)], jerrs := E, jvecs := V\<rparr>" .
  have p1: "pending_ok j s1" using p by (simp add: s1 pending_ok_def)
  have l1: "log_ok pre e j s1"
    using l pending_call_ok[OF p] by (rule log_ok_snoc) (simp add: s1)
  define rl1 where "rl1 = (case rateLimitNew of Some r \<Rightarrow> r | None \<Rightarrow> rl)"
  define s2 where "s2 = s1\<lparr>timePerToken :=
      time_per_token (took e (ncalls s)) (tokensInCurrentBatch s), rateLimit := Some rl1\<rparr>"
  define now where "now = since e (nclock s2)"
  define wait where "wait = wrap64 (ResetRequests rl1 * Second)"
  define s3 where "s3 = s2\<lparr>nclock := nclock s2 + 1\<rparr>"
  note d = dispatch_after_call[OF call, of j rl, folded rl1_def, folded s2_def,
      folded now_def wait_def s3_def]
  have p3: "pending_ok j s3" using p1 by (simp add: s3_def s2_def pending_ok_def)
  have l2: "log_ok pre e j s2" using l1 by (simp add: s2_def log_ok_def)
  have l3: "log_ok pre e j s3" using l2 by (simp add: s3_def log_ok_def)
  have reset: "\<And>t. log_ok pre e j t \<Longrightarrow>
      pending_ok j (reset_batch t) \<and> accum_ok j (reset_batch t) \<and> log_ok pre e j (reset_batch t)"
    by (simp add: reset_batch_def pending_ok_def accum_ok_def log_ok_def)
  show ?thesis
  proof (cases "RemainingRequests rl1 = 0 \<and> 0 < ResetRequests rl1")
    case False
    then have "dispatch e j rl s = Continue (reset_batch s2)"
      by (simp only: d if_False)
    then show ?thesis using reset[OF l2] by simp
  next
    case True
    show ?thesis
    proof (cases "maxBatchTime e < wrap64 (now + wait)")
      case giveup: True
      show ?thesis
      proof (cases "origIndex s3")
        case Nil
        then show ?thesis using l3 by (simp only: d True giveup if_True) simp
      next
        case (Cons i0 rest)
        have "pending_ok j (mark_from RequestRateLimit i0 j s3)"
          using p3 by (simp add: pending_ok_def)
        moreover have "log_ok pre e j (mark_from RequestRateLimit i0 j s3)"
          using l3 by (rule log_ok_same) simp
        ultimately show ?thesis by (simp only: d True giveup if_True Cons) simp
      qed
    next
      case wait_ok: False
      have "log_ok pre e j (s3\<lparr>trace := trace s3 @ [Sleep now wait]\<rparr>)"
        using l3 by (rule log_ok_snoc [where ev = "Sleep now wait"]) (use wait_ok in simp_all)
      from reset[OF this] show ?thesis by (simp only: d True wait_ok if_True if_False) simp
    qed
  qed
qed

text \<open>The branches of one round of the main loop.\<close>

lemma body_cancelled:
  "ctxErr e (nctx s) \<Longrightarrow>
   body e j s = Break (mark_from ContextDone (objCounter s) j (s\<lparr>nctx := nctx s + 1\<rparr>))"
  by (simp add: body_def Let_def)

lemma body_skipped:
  "\<not> ctxErr e (nctx s) \<Longrightarrow> skipObject j ! objCounter s \<Longrightarrow>
   body e j s = Continue (s\<lparr>nctx := nctx s + 1, objCounter := objCounter s + 1\<rparr>)"
  by (simp add: body_def Let_def)

lemma body_no_limits:
  "\<not> ctxErr e (nctx s) \<Longrightarrow> \<not> skipObject j ! objCounter s \<Longrightarrow> rateLimit s = None \<Longrightarrow>
   body e j s = Crash NilDereference (s\<lparr>nctx := nctx s + 1\<rparr>)"
  by (simp add: body_def Let_def)

lemma body_too_long:
  "\<not> ctxErr e (nctx s) \<Longrightarrow> \<not> skipObject j ! objCounter s \<Longrightarrow> rateLimit s = Some rl \<Longrightarrow>
   LimitTokens rl < tokens j ! objCounter s \<Longrightarrow>
   body e j s = Continue (s\<lparr>nctx := nctx s + 1,
       jerrs := (jerrs s)(objCounter s \<mapsto> TextTooLong), objCounter := objCounter s + 1\<rparr>)"
  by (simp add: body_def Let_def)

lemma body_admitted:
  assumes "\<not> ctxErr e (nctx s)" and "\<not> skipObject j ! objCounter s" and "rateLimit s = Some rl"
    and "\<not> LimitTokens rl < tokens j ! objCounter s"
    and "admits rl (timePerToken s) (tokensInCurrentBatch s) (tokens j ! objCounter s)
           (length (batch s))"
  defines "s1 \<equiv> s\<lparr>nctx := nctx s + 1,
                    tokensInCurrentBatch :=
                      wrap64 (tokensInCurrentBatch s + tokens j ! objCounter s),
                    batch := batch s @ [texts j ! objCounter s],
                    origIndex := origIndex s @ [objCounter s],
                    objCounter := objCounter s + 1,
                    budget := RemainingTokens rl\<rparr>"
  shows "body e j s =
           (if objCounter s + 1 < length (texts j) then Continue s1 else dispatch e j rl s1)"
  using assms(1-5) by (simp add: body_def Let_def s1_def)

lemma body_not_admitted:
  assumes "\<not> ctxErr e (nctx s)" and "\<not> skipObject j ! objCounter s" and "rateLimit s = Some rl"
    and "\<not> LimitTokens rl < tokens j ! objCounter s"
    and "\<not> admits rl (timePerToken s) (tokensInCurrentBatch s) (tokens j ! objCounter s)
           (length (batch s))"
  shows "body e j s =
           (if batch s = [] \<and> 0 < ResetTokens rl
            then Continue (token_wait e j rl (s\<lparr>nctx := nctx s + 1\<rparr>))
            else dispatch e j rl (s\<lparr>nctx := nctx s + 1\<rparr>))"
  using assms by (simp add: body_def Let_def)

lemma body_keeps:
  assumes oc: "objCounter s < length (texts j)"
    and p: "pending_ok j s" and a: "accum_ok j s" and l: "log_ok pre e j s"
  shows "case body e j s of
           Continue s' \<Rightarrow> pending_ok j s' \<and> accum_ok j s' \<and> log_ok pre e j s'
         | Break s' \<Rightarrow> pending_ok j s' \<and> log_ok pre e j s'
         | Crash x s' \<Rightarrow> log_ok pre e j s'"
proof -
  define s0 where "s0 = s\<lparr>nctx := nctx s + 1\<rparr>"
  have p0: "pending_ok j s0" using p by (simp add: s0_def pending_ok_def)
  have a0: "accum_ok j s0" using a by (simp add: s0_def accum_ok_def)
  have l0: "log_ok pre e j s0" using l by (simp add: s0_def log_ok_def)
  have oc0: "objCounter s0 < length (texts j)" using oc by (simp add: s0_def)
  consider (cancelled) "ctxErr e (nctx s)"
    | (skipped) "\<not> ctxErr e (nctx s)" "skipObject j ! objCounter s"
    | (no_limits) "\<not> ctxErr e (nctx s)" "\<not> skipObject j ! objCounter s" "rateLimit s = None"
    | (too_long) rl where "\<not> ctxErr e (nctx s)" "\<not> skipObject j ! objCounter s"
        "rateLimit s = Some rl" "LimitTokens rl < tokens j ! objCounter s"
    | (admitted) rl where "\<not> ctxErr e (nctx s)" "\<not> skipObject j ! objCounter s"
        "rateLimit s = Some rl" "\<not> LimitTokens rl < tokens j ! objCounter s"
        "admits rl (timePerToken s) (tokensInCurrentBatch s) (tokens j ! objCounter s)
           (length (batch s))"
    | (refused) rl where "\<not> ctxErr e (nctx s)" "\<not> skipObject j ! objCounter s"
        "rateLimit s = Some rl" "\<not> LimitTokens rl < tokens j ! objCounter s"
        "\<not> admits rl (timePerToken s) (tokensInCurrentBatch s) (tokens j ! objCounter s)
           (length (batch s))"
    by (cases "rateLimit s") auto
  then show ?thesis
  proof cases
    case cancelled
    have "pending_ok j (mark_from ContextDone (objCounter s) j s0)"
      using p0 by (simp add: pending_ok_def)
    moreover have "log_ok pre e j (mark_from ContextDone (objCounter s) j s0)"
      using l0 by (rule log_ok_same) simp
    ultimately show ?thesis by (simp add: body_cancelled[OF cancelled] s0_def)
  next
    case skipped
    have "pending_ok j (s0\<lparr>objCounter := objCounter s + 1\<rparr>)"
      using p0 by (simp add: pending_ok_def)
    moreover have "accum_ok j (s0\<lparr>objCounter := objCounter s + 1\<rparr>)"
      using a0 by (simp add: accum_ok_def)
    moreover have "log_ok pre e j (s0\<lparr>objCounter := objCounter s + 1\<rparr>)"
      using l0 by (simp add: log_ok_def)
    ultimately show ?thesis by (simp add: body_skipped[OF skipped] s0_def)
  next
    case no_limits
    show ?thesis using l0 by (simp add: body_no_limits[OF no_limits] s0_def)
  next
    case too_long
    let ?s' = "s0\<lparr>jerrs := (jerrs s)(objCounter s \<mapsto> TextTooLong), objCounter := objCounter s + 1\<rparr>"
    have "pending_ok j ?s'" using p0 by (simp add: pending_ok_def)
    moreover have "accum_ok j ?s'" using a0 by (simp add: accum_ok_def)
    moreover have "log_ok pre e j ?s'" using l0 by (simp add: log_ok_def)
    ultimately show ?thesis by (simp add: body_too_long[OF too_long] s0_def)
  next
    case admitted
    define s1 where "s1 = s0\<lparr>tokensInCurrentBatch :=
                                wrap64 (tokensInCurrentBatch s0 + tokens j ! objCounter s0),
                             batch := batch s0 @ [texts j ! objCounter s0],
                             origIndex := origIndex s0 @ [objCounter s0],
                             objCounter := objCounter s0 + 1,
                             budget := RemainingTokens rl\<rparr>"
    have "admits rl (timePerToken s0) (tokensInCurrentBatch s0)
            (tokens j ! objCounter s0) (length (batch s0))"
      using admitted(5) by (simp add: s0_def)
    moreover have "rateLimit s0 = Some rl" using admitted(3) by (simp add: s0_def)
    ultimately have inv1: "pending_ok j s1" "accum_ok j s1"
      using admit_keeps_invariants[OF oc0 p0 a0] by (simp_all add: s1_def)
    have l1: "log_ok pre e j s1" using l0 by (simp add: s1_def log_ok_def)
    have b: "body e j s =
        (if objCounter s + 1 < length (texts j) then Continue s1 else dispatch e j rl s1)"
      by (simp add: body_admitted[OF admitted] s1_def s0_def)
    show ?thesis
    proof (cases "objCounter s + 1 < length (texts j)")
      case True
      then show ?thesis using inv1 l1 by (simp add: b)
    next
      case False
      then show ?thesis using dispatch_keeps[OF inv1(1) l1, of rl] by (simp add: b)
    qed
  next
    case refused
    have b: "body e j s =
        (if batch s = [] \<and> 0 < ResetTokens rl then Continue (token_wait e j rl s0)
         else dispatch e j rl s0)"
      by (simp only: body_not_admitted[OF refused] s0_def)
    show ?thesis
    proof (cases "batch s = [] \<and> 0 < ResetTokens rl")
      case True
      then have o: "origIndex s0 = []" using p0 by (simp add: pending_ok_def s0_def)
      show ?thesis using token_wait_keeps[OF o p0 a0 l0, of rl] True by (simp add: b)
    next
      case False
      then have "body e j s = dispatch e j rl s0" by (simp only: b if_False)
      then show ?thesis using dispatch_keeps[OF p0 l0, of rl] by simp
    qed
  qed
qed

lemma main_loop_keeps:
  "pending_ok j s \<Longrightarrow> accum_ok j s \<Longrightarrow> log_ok pre e j s \<Longrightarrow>
   log_ok pre e j (final (main_loop n e j s))
   \<and> (\<forall>s'. main_loop n e j s = Done s' \<longrightarrow> pending_ok j s')"
proof (induction n arbitrary: s)
  case 0
  then show ?case by (simp add: final_def)
next
  case (Suc n)
  show ?case
  proof (cases "objCounter s < length (texts j)")
    case False
    with Suc.prems show ?thesis by (simp add: final_def)
  next
    case True
    note bk = body_keeps[OF True Suc.prems]
    show ?thesis
    proof (cases "body e j s")
      case (Continue s1)
      with bk have "pending_ok j s1" "accum_ok j s1" "log_ok pre e j s1" by simp_all
      from Suc.IH[OF this] show ?thesis using True Continue by simp
    next
      case (Break s1)
      with bk True show ?thesis by (simp add: final_def)
    next
      case (Crash x s1)
      with bk True show ?thesis by (simp add: final_def)
    qed
  qed
qed

lemma drain_keeps:
  assumes "pending_ok j s" and "log_ok pre e j s"
  shows "log_ok pre e j (final (drain e j s))"
proof (cases "batch s \<noteq> [] \<and> objCounter s = length (texts j)")
  case False
  with assms(2) show ?thesis by (auto simp add: drain_def final_def)
next
  case True
  show ?thesis
  proof (cases "makeRequest e (batch s) (origIndex s) s")
    case (Panics x s1)
    from makeRequest_Panics[OF Panics] obtain E V where
      s1: "s1 = s\<lparr>ncalls := ncalls s + 1,
        trace := trace s @ [Call (origIndex s) (budget s)], jerrs := E, jvecs := V\<rparr>" .
    have "log_ok pre e j s1"
      using assms(2) pending_call_ok[OF assms(1)] by (rule log_ok_snoc) (simp add: s1)
    then show ?thesis using True by (simp add: drain_def Panics final_def)
  next
    case (Ret r)
    obtain s1 rateLimitNew er where r: "r = (s1, rateLimitNew, er)" by (cases r)
    from makeRequest_Ret[OF Ret[unfolded r]] obtain E V where
      s1: "s1 = s\<lparr>ncalls := ncalls s + 1,
        trace := trace s @ [Call (origIndex s) (budget s)], jerrs := E, jvecs := V\<rparr>" .
    have "log_ok pre e j s1"
      using assms(2) pending_call_ok[OF assms(1)] by (rule log_ok_snoc) (simp add: s1)
    moreover have "trace (final (drain e j s)) = trace s1"
      using True by (simp add: drain_def Ret r final_def split: option.splits)
    ultimately show ?thesis by (rule log_ok_same)
  qed
qed

lemma after_bootstrap_keeps:
  assumes "pending_ok j s" and "accum_ok j s" and "log_ok pre e j s"
  shows "log_ok pre e j (final (after_bootstrap n e j s))"
proof (cases "main_loop n e j s")
  case (Done s1)
  with main_loop_keeps[OF assms, of n] have "pending_ok j s1" "log_ok pre e j s1"
    by (simp_all add: final_def)
  then have "log_ok pre e j (final (drain e j s1))" by (rule drain_keeps)
  then show ?thesis by (simp add: after_bootstrap_def Done)
next
  case (Panicked x s1)
  with main_loop_keeps[OF assms, of n] show ?thesis
    by (simp add: after_bootstrap_def final_def)
next
  case (OutOfFuel s1)
  with main_loop_keeps[OF assms, of n] show ?thesis
    by (simp add: after_bootstrap_def final_def)
qed

text \<open>The bootstrap loop leaves the batch alone and only makes calls.\<close>

lemma bootstrap_frame:
  "batch (final (bootstrap n e j s)) = batch s
   \<and> origIndex (final (bootstrap n e j s)) = origIndex s
   \<and> tokensInCurrentBatch (final (bootstrap n e j s)) = tokensInCurrentBatch s
   \<and> timePerToken (final (bootstrap n e j s)) = timePerToken s
   \<and> (\<exists>evs. trace (final (bootstrap n e j s)) = trace s @ evs \<and> list_all is_call evs)"
proof (induction n arbitrary: s)
  case 0
  show ?case by (simp add: final_def)
next
  case (Suc n)
  show ?case
  proof (cases "objCounter s < length (texts j) \<and> firstRequest s")
    case False
    then show ?thesis by (auto simp add: final_def)
  next
    case True
    show ?thesis
    proof (cases "skipObject j ! objCounter s")
      case skip: True
      then have "bootstrap (Suc n) e j s = bootstrap n e j (s\<lparr>objCounter := objCounter s + 1\<rparr>)"
        using True by simp
      then show ?thesis using Suc.IH[of "s\<lparr>objCounter := objCounter s + 1\<rparr>"] by simp
    next
      case noskip: False
      show ?thesis
      proof (cases "makeRequest e [texts j ! objCounter s] [objCounter s] s")
        case (Panics x s1)
        from makeRequest_Panics[OF Panics] obtain E V where
          s1: "s1 = s\<lparr>ncalls := ncalls s + 1,
            trace := trace s @ [Call [objCounter s] (budget s)], jerrs := E, jvecs := V\<rparr>" .
        have "bootstrap (Suc n) e j s = Panicked x s1"
          using True noskip Panics by simp
        moreover have "list_all is_call [Call [objCounter s] (budget s)]"
          by (simp add: is_call_def)
        ultimately show ?thesis by (simp add: final_def s1)
      next
        case (Ret r)
        obtain s1 rl er where r: "r = (s1, rl, er)" by (cases r)
        from makeRequest_Ret[OF Ret[unfolded r]] obtain E V where
          s1: "s1 = s\<lparr>ncalls := ncalls s + 1,
            trace := trace s @ [Call [objCounter s] (budget s)], jerrs := E, jvecs := V\<rparr>" .
        define s2 where "s2 = (case er of
            Some x \<Rightarrow> s1\<lparr>rateLimit := rl, jerrs := (jerrs s1)(objCounter s \<mapsto> x)\<rparr>
          | None \<Rightarrow> s1\<lparr>rateLimit := rl, firstRequest := False, objCounter := objCounter s + 1\<rparr>)"
        have b: "bootstrap (Suc n) e j s = bootstrap n e j s2"
          using True noskip Ret r by (simp add: s2_def split: option.splits)
        from Suc.IH[of s2] obtain evs where
          f: "batch (final (bootstrap n e j s2)) = batch s2"
             "origIndex (final (bootstrap n e j s2)) = origIndex s2"
             "tokensInCurrentBatch (final (bootstrap n e j s2)) = tokensInCurrentBatch s2"
             "timePerToken (final (bootstrap n e j s2)) = timePerToken s2"
             "trace (final (bootstrap n e j s2)) = trace s2 @ evs" "list_all is_call evs"
          by blast
        have g: "batch s2 = batch s" "origIndex s2 = origIndex s"
             "tokensInCurrentBatch s2 = tokensInCurrentBatch s"
             "timePerToken s2 = timePerToken s"
             "trace s2 = trace s @ [Call [objCounter s] (budget s)]"
          by (simp_all add: s2_def s1 split: option.splits)
        have "trace (final (bootstrap n e j s2)) = trace s @ (Call [objCounter s] (budget s) # evs)"
          by (simp add: f(5) g(5))
        moreover have "list_all is_call (Call [objCounter s] (budget s) # evs)"
          using f(6) by (simp add: is_call_def)
        ultimately show ?thesis unfolding b f(1-4) g(1-4) by blast
      qed
    qed
  qed
qed

lemma process_job_log:
  assumes b: "bootstrap n e j (start_job j s) = Done s1"
  shows "log_ok (trace s1) e j (final (process_job n e j s))"
proof -
  from bootstrap_frame[of n e j "start_job j s"] b
  have f: "batch s1 = []" "origIndex s1 = []" "tokensInCurrentBatch s1 = 0"
    by (simp_all add: final_def)
  have "pending_ok j s1" using f by (simp add: pending_ok_empty)
  moreover have "accum_ok j s1" using f by (simp add: accum_ok_empty)
  moreover have "log_ok (trace s1) e j s1" by (simp add: log_ok_def)
  ultimately have "log_ok (trace s1) e j (final (after_bootstrap n e j s1))"
    by (rule after_bootstrap_keeps)
  then show ?thesis by (simp add: process_job_def b)
qed

subsection \<open>A poisoned time per token stays\<close>

lemma calls_empty_snoc:
  "calls_empty pre s \<Longrightarrow> empty_call ev \<Longrightarrow> trace s' = trace s @ [ev] \<Longrightarrow> calls_empty pre s'"
  by (auto simp add: calls_empty_def)

lemma calls_empty_same: "calls_empty pre s \<Longrightarrow> trace s' = trace s \<Longrightarrow> calls_empty pre s'"
  by (simp add: calls_empty_def)

lemma token_wait_stuck:
  assumes "stuck s" and "calls_empty pre s"
  shows "stuck (token_wait e j rl s) \<and> calls_empty pre (token_wait e j rl s)"
proof -
  have "stuck (token_wait e j rl s)" using assms(1) by (simp add: stuck_def)
  moreover have "calls_empty pre (token_wait e j rl s)"
    using assms(2) by (auto simp add: calls_empty_def token_wait_def Let_def empty_call_def)
  ultimately show ?thesis by simp
qed

lemma dispatch_stuck:
  assumes tk: "\<forall>m. 0 \<le> took e m" and st: "stuck s" and l: "calls_empty pre s"
  shows "case dispatch e j rl s of
           Continue s' \<Rightarrow> stuck s' \<and> calls_empty pre s'
         | Break s' \<Rightarrow> stuck s' \<and> calls_empty pre s'
         | Crash x s' \<Rightarrow> stuck s' \<and> calls_empty pre s'"
proof (cases "makeRequest e (batch s) (origIndex s) s")
  case (Panics x s1)
  from makeRequest_Panics[OF Panics] obtain E V where
    s1: "s1 = s\<lparr>ncalls := ncalls s + 1,
      trace := trace s @ [Call (origIndex s) (budget s)], jerrs := E, jvecs := V\<rparr>" .
  have "stuck s1" using st by (simp add: s1 stuck_def)
  moreover have "calls_empty pre s1"
    using l by (rule calls_empty_snoc [where ev = "Call (origIndex s) (budget s)"])
      (use st in \<open>simp_all add: s1 empty_call_def stuck_def\<close>)
  ultimately show ?thesis by (simp add: dispatch_def Panics)
next
  case (Ret r)
  obtain s1 rateLimitNew er where r: "r = (s1, rateLimitNew, er)" by (cases r)
  note call = Ret[unfolded r]
  from makeRequest_Ret[OF call] obtain E V where
    s1: "s1 = s\<lparr>ncalls := ncalls s + 1,
      trace := trace s @ [Call (origIndex s) (budget s)], jerrs := E, jvecs := V\<rparr>" .
  have l1: "calls_empty pre s1"
    using l by (rule calls_empty_snoc [where ev = "Call (origIndex s) (budget s)"])
      (use st in \<open>simp_all add: s1 empty_call_def stuck_def\<close>)
  define rl1 where "rl1 = (case rateLimitNew of Some r \<Rightarrow> r | None \<Rightarrow> rl)"
  define s2 where "s2 = s1\<lparr>timePerToken :=
      time_per_token (took e (ncalls s)) (tokensInCurrentBatch s), rateLimit := Some rl1\<rparr>"
  define now where "now = since e (nclock s2)"
  define wait where "wait = wrap64 (ResetRequests rl1 * Second)"
  define s3 where "s3 = s2\<lparr>nclock := nclock s2 + 1\<rparr>"
  note d = dispatch_after_call[OF call, of j rl, folded rl1_def, folded s2_def,
      folded now_def wait_def s3_def]
  have "poisoned (time_per_token (took e (ncalls s)) (tokensInCurrentBatch s))"
    using st tk by (simp add: stuck_def time_per_token_zero_poisoned)
  then have st2: "stuck s2" using st by (simp add: s2_def s1 stuck_def)
  have l2: "calls_empty pre s2" using l1 by (simp add: s2_def calls_empty_def)
  have st3: "stuck s3" using st2 by (simp add: s3_def stuck_def)
  have l3: "calls_empty pre s3" using l2 by (simp add: s3_def calls_empty_def)
  have o3: "origIndex s3 = []" using st3 by (simp add: stuck_def)
  have reset: "\<And>t. stuck t \<Longrightarrow> calls_empty pre t \<Longrightarrow>
      stuck (reset_batch t) \<and> calls_empty pre (reset_batch t)"
    by (simp add: reset_batch_def stuck_def calls_empty_def)
  show ?thesis
  proof (cases "RemainingRequests rl1 = 0 \<and> 0 < ResetRequests rl1")
    case False
    then have "dispatch e j rl s = Continue (reset_batch s2)"
      by (simp only: d if_False)
    then show ?thesis using reset[OF st2 l2] by simp
  next
    case True
    show ?thesis
    proof (cases "maxBatchTime e < wrap64 (now + wait)")
      case giveup: True
      have "dispatch e j rl s = Crash IndexOutOfRange s3"
        by (simp only: d True giveup if_True o3 list.case simp_thms)
      then show ?thesis using st3 l3 by simp
    next
      case wait_ok: False
      have "stuck (s3\<lparr>trace := trace s3 @ [Sleep now wait]\<rparr>)"
        using st3 by (simp add: stuck_def)
      moreover have "calls_empty pre (s3\<lparr>trace := trace s3 @ [Sleep now wait]\<rparr>)"
        using l3 by (rule calls_empty_snoc [where ev = "Sleep now wait"])
          (simp_all add: empty_call_def)
      ultimately have "stuck (reset_batch (s3\<lparr>trace := trace s3 @ [Sleep now wait]\<rparr>))
          \<and> calls_empty pre (reset_batch (s3\<lparr>trace := trace s3 @ [Sleep now wait]\<rparr>))"
        by (rule reset)
      then show ?thesis by (simp only: d True wait_ok if_True if_False simp_thms) simp
    qed
  qed
qed

lemma body_stuck:
  assumes tk: "\<forall>m. 0 \<le> took e m" and st: "stuck s" and l: "calls_empty pre s"
  shows "case body e j s of
           Continue s' \<Rightarrow> stuck s' \<and> calls_empty pre s'
         | Break s' \<Rightarrow> stuck s' \<and> calls_empty pre s'
         | Crash x s' \<Rightarrow> stuck s' \<and> calls_empty pre s'"
proof -
  define s0 where "s0 = s\<lparr>nctx := nctx s + 1\<rparr>"
  have st0: "stuck s0" using st by (simp add: s0_def stuck_def)
  have l0: "calls_empty pre s0" using l by (simp add: s0_def calls_empty_def)
  have refuse: "\<not> admits rl (timePerToken s) (tokensInCurrentBatch s)
                   (tokens j ! objCounter s) (length (batch s))" for rl
    using st by (intro poisoned_blocks) (simp_all add: stuck_def)
  consider (cancelled) "ctxErr e (nctx s)"
    | (skipped) "\<not> ctxErr e (nctx s)" "skipObject j ! objCounter s"
    | (no_limits) "\<not> ctxErr e (nctx s)" "\<not> skipObject j ! objCounter s" "rateLimit s = None"
    | (too_long) rl where "\<not> ctxErr e (nctx s)" "\<not> skipObject j ! objCounter s"
        "rateLimit s = Some rl" "LimitTokens rl < tokens j ! objCounter s"
    | (refused) rl where "\<not> ctxErr e (nctx s)" "\<not> skipObject j ! objCounter s"
        "rateLimit s = Some rl" "\<not> LimitTokens rl < tokens j ! objCounter s"
        "\<not> admits rl (timePerToken s) (tokensInCurrentBatch s) (tokens j ! objCounter s)
           (length (batch s))"
    using refuse by (cases "rateLimit s") auto
  then show ?thesis
  proof cases
    case cancelled
    have "stuck (mark_from ContextDone (objCounter s) j s0)"
      using st0 by (simp add: stuck_def)
    moreover have "calls_empty pre (mark_from ContextDone (objCounter s) j s0)"
      using l0 by (rule calls_empty_same) simp
    ultimately show ?thesis by (simp add: body_cancelled[OF cancelled] s0_def)
  next
    case skipped
    have "stuck (s0\<lparr>objCounter := objCounter s + 1\<rparr>)"
      using st0 by (simp add: stuck_def)
    moreover have "calls_empty pre (s0\<lparr>objCounter := objCounter s + 1\<rparr>)"
      using l0 by (simp add: calls_empty_def)
    ultimately show ?thesis by (simp add: body_skipped[OF skipped] s0_def)
  next
    case no_limits
    show ?thesis using st0 l0 by (simp add: body_no_limits[OF no_limits] s0_def)
  next
    case too_long
    let ?s' = "s0\<lparr>jerrs := (jerrs s)(objCounter s \<mapsto> TextTooLong), objCounter := objCounter s + 1\<rparr>"
    have "stuck ?s'" using st0 by (simp add: stuck_def)
    moreover have "calls_empty pre ?s'" using l0 by (simp add: calls_empty_def)
    ultimately show ?thesis by (simp add: body_too_long[OF too_long] s0_def)
  next
    case refused
    have b: "body e j s =
        (if batch s = [] \<and> 0 < ResetTokens rl then Continue (token_wait e j rl s0)
         else dispatch e j rl s0)"
      by (simp only: body_not_admitted[OF refused] s0_def)
    show ?thesis
    proof (cases "batch s = [] \<and> 0 < ResetTokens rl")
      case True
      show ?thesis using token_wait_stuck[OF st0 l0, of e j rl] True by (simp add: b)
    next
      case False
      then have "body e j s = dispatch e j rl s0" by (simp only: b if_False)
      then show ?thesis using dispatch_stuck[OF tk st0 l0, of j rl] by simp
    qed
  qed
qed

lemma main_loop_stuck:
  assumes tk: "\<forall>m. 0 \<le> took e m"
  shows "stuck s \<Longrightarrow> calls_empty pre s \<Longrightarrow>
         stuck (final (main_loop n e j s)) \<and> calls_empty pre (final (main_loop n e j s))"
proof (induction n arbitrary: s)
  case 0
  then show ?case by (simp add: final_def)
next
  case (Suc n)
  show ?case
  proof (cases "objCounter s < length (texts j)")
    case False
    with Suc.prems show ?thesis by (simp add: final_def)
  next
    case True
    note bk = body_stuck[OF tk Suc.prems, of j]
    show ?thesis
    proof (cases "body e j s")
      case (Continue s1)
      with bk have "stuck s1" "calls_empty pre s1" by simp_all
      from Suc.IH[OF this] show ?thesis using True Continue by simp
    next
      case (Break s1)
      with bk True show ?thesis by (simp add: final_def)
    next
      case (Crash x s1)
      with bk True show ?thesis by (simp add: final_def)
    qed
  qed
qed

lemma after_bootstrap_stuck:
  assumes tk: "\<forall>m. 0 \<le> took e m" and st: "stuck s" and l: "calls_empty pre s"
  shows "stuck (final (after_bootstrap n e j s))
         \<and> calls_empty pre (final (after_bootstrap n e j s))"
proof (cases "main_loop n e j s")
  case (Done s1)
  with main_loop_stuck[OF tk st l, of n j] have s1: "stuck s1" "calls_empty pre s1"
    by (simp_all add: final_def)
  then have "drain e j s1 = Done s1" by (simp add: drain_def stuck_def)
  then show ?thesis using s1 by (simp add: after_bootstrap_def Done final_def)
next
  case (Panicked x s1)
  with main_loop_stuck[OF tk st l, of n j] show ?thesis
    by (simp add: after_bootstrap_def final_def)
next
  case (OutOfFuel s1)
  with main_loop_stuck[OF tk st l, of n j] show ?thesis
    by (simp add: after_bootstrap_def final_def)
qed

lemma process_job_stuck:
  assumes tk: "\<forall>m. 0 \<le> took e m" and p: "poisoned (timePerToken s)"
  shows "poisoned (timePerToken (final (process_job n e j s)))"
    and "bootstrap n e j (start_job j s) = Done s1 \<Longrightarrow>
         calls_empty (trace s1) (final (process_job n e j s))"
proof -
  note f = bootstrap_frame[of n e j "start_job j s"]
  have both: "poisoned (timePerToken (final (process_job n e j s)))
      \<and> (bootstrap n e j (start_job j s) = Done s1 \<longrightarrow>
           calls_empty (trace s1) (final (process_job n e j s)))"
  proof (cases "bootstrap n e j (start_job j s)")
    case (Done t)
    with f p have "stuck t" by (simp add: stuck_def final_def)
    moreover have "calls_empty (trace t) t" by (simp add: calls_empty_def)
    ultimately have "stuck (final (after_bootstrap n e j t))
        \<and> calls_empty (trace t) (final (after_bootstrap n e j t))"
      by (rule after_bootstrap_stuck[OF tk])
    then show ?thesis by (auto simp add: process_job_def Done stuck_def)
  next
    case (Panicked x t)
    with f p show ?thesis by (simp add: process_job_def final_def)
  next
    case (OutOfFuel t)
    with f p show ?thesis by (simp add: process_job_def final_def)
  qed
  from both show "poisoned (timePerToken (final (process_job n e j s)))" by simp
  from both show "bootstrap n e j (start_job j s) = Done s1 \<Longrightarrow>
         calls_empty (trace s1) (final (process_job n e j s))" by simp
qed

subsection \<open>Two loops that do not end\<close>

lemma bootstrap_failing_stuck:
  "objCounter s = 0 \<Longrightarrow> firstRequest s \<Longrightarrow>
   still_running (bootstrap n failing_env (job_of [''a''] [1]) s)
   \<and> trace (final (bootstrap n failing_env (job_of [''a''] [1]) s))
       = trace s @ replicate n (Call [0] (budget s))"
proof (induction n arbitrary: s)
  case 0
  show ?case by (simp add: still_running_def final_def)
next
  case (Suc n)
  let ?s1 = "s\<lparr>ncalls := ncalls s + 1, trace := trace s @ [Call [0] (budget s)],
               jerrs := (jerrs s)(0 \<mapsto> External ''status 401'')\<rparr>"
  let ?s2 = "?s1\<lparr>rateLimit := None, jerrs := (jerrs ?s1)(0 \<mapsto> External ''status 401'')\<rparr>"
  have mk: "makeRequest failing_env [''a''] [0] s = Ret (?s1, None, Some (External ''status 401''))"
    by (simp add: makeRequest_def failing_env_def world_def call_failed_def store_error_def)
  have step: "bootstrap (Suc n) failing_env (job_of [''a''] [1]) s =
        bootstrap n failing_env (job_of [''a''] [1]) ?s2"
    using Suc.prems by (simp add: mk job_of_def)
  have "objCounter ?s2 = 0" "firstRequest ?s2" using Suc.prems by simp_all
  from Suc.IH[OF this] show ?case
    by (simp only: step) (simp add: replicate_app_Cons_same)
qed

lemma failing_job_runs:
  "still_running (process_job n failing_env (job_of [''a''] [1]) initial)
   \<and> trace (final (process_job n failing_env (job_of [''a''] [1]) initial))
       = replicate n (Call [0] 0)"
proof -
  let ?b = "bootstrap n failing_env (job_of [''a''] [1]) (start_job (job_of [''a''] [1]) initial)"
  have b: "still_running ?b \<and> trace (final ?b) = replicate n (Call [0] 0)"
    using bootstrap_failing_stuck[of "start_job (job_of [''a''] [1]) initial" n]
    by (simp add: start_job_def initial_def)
  then obtain s1 where "?b = OutOfFuel s1"
    by (cases ?b) (simp_all add: still_running_def)
  with b show ?thesis by (simp add: process_job_def)
qed

lemma starved_round:
  fixes s :: state
  defines "j \<equiv> job_of [''a'', ''b''] [1, 50]"
  assumes "objCounter s = 1" and "batch s = []" and "origIndex s = []"
    and "tokensInCurrentBatch s = 0" and "rateLimit s = Some (limits_with 10 0 99 1)"
    and "0 < ncalls s"
  shows "\<exists>s'. body starved_env j s = Continue s' \<and> objCounter s' = 1 \<and> batch s' = []
     \<and> origIndex s' = [] \<and> tokensInCurrentBatch s' = 0
     \<and> rateLimit s' = Some (limits_with 10 0 99 1) \<and> 0 < ncalls s'
     \<and> trace s' = trace s @ [Call [] (budget s)] \<and> budget s' = budget s"
proof -
  let ?rl = "limits_with 10 0 99 1"
  let ?s0 = "s\<lparr>nctx := nctx s + 1\<rparr>"
  have na: "\<not> admits ?rl (timePerToken s) (tokensInCurrentBatch s) (tokens j ! objCounter s)
              (length (batch s))"
  proof
    assume "admits ?rl (timePerToken s) (tokensInCurrentBatch s) (tokens j ! objCounter s)
              (length (batch s))"
    then have "20 * (tokensInCurrentBatch s + tokens j ! objCounter s) < 19 * RemainingTokens ?rl"
      by (rule admits_bound) (simp_all add: assms job_of_def limits_with_def)
    then show False by (simp add: assms job_of_def limits_with_def)
  qed
  have b: "body starved_env j s = dispatch starved_env j ?rl ?s0"
    using body_not_admitted[of starved_env s j ?rl, OF _ _ _ _ na]
    by (simp add: assms starved_env_def world_def job_of_def limits_with_def)
  let ?s1 = "?s0\<lparr>ncalls := ncalls s + 1, trace := trace s @ [Call [] (budget s)]\<rparr>"
  have mk: "makeRequest starved_env (batch ?s0) (origIndex ?s0) ?s0
              = Ret (?s1, None, Some (External ''status 401''))"
    using assms(2-) by (simp add: makeRequest_def starved_env_def world_def call_failed_def)
  show ?thesis
    unfolding b dispatch_after_call[OF mk]
    using assms(2-) by (simp add: limits_with_def reset_batch_def)
qed

lemma starved_loop:
  fixes s :: state
  assumes "objCounter s = 1" and "batch s = []" and "origIndex s = []"
    and "tokensInCurrentBatch s = 0" and "rateLimit s = Some (limits_with 10 0 99 1)"
    and "0 < ncalls s"
  shows "still_running (main_loop n starved_env (job_of [''a'', ''b''] [1, 50]) s)
     \<and> trace (final (main_loop n starved_env (job_of [''a'', ''b''] [1, 50]) s))
         = trace s @ replicate n (Call [] (budget s))"
  using assms
proof (induction n arbitrary: s)
  case 0
  show ?case by (simp add: still_running_def final_def)
next
  case (Suc n)
  from starved_round[OF Suc.prems] obtain s' where
    b: "body starved_env (job_of [''a'', ''b''] [1, 50]) s = Continue s'"
    and i: "objCounter s' = 1" "batch s' = []" "origIndex s' = []" "tokensInCurrentBatch s' = 0"
      "rateLimit s' = Some (limits_with 10 0 99 1)" "0 < ncalls s'"
    and t: "trace s' = trace s @ [Call [] (budget s)]" "budget s' = budget s"
    by blast
  have "objCounter s < length (texts (job_of [''a'', ''b''] [1, 50]))"
    using Suc.prems(1) by (simp add: job_of_def)
  then have "main_loop (Suc n) starved_env (job_of [''a'', ''b''] [1, 50]) s
          = main_loop n starved_env (job_of [''a'', ''b''] [1, 50]) s'"
    by (simp add: b)
  with Suc.IH[OF i] show ?case by (simp add: t replicate_app_Cons_same)
qed

lemma starved_bootstrap:
  "\<exists>s. bootstrap (Suc (Suc n)) starved_env (job_of [''a'', ''b''] [1, 50])
          (start_job (job_of [''a'', ''b''] [1, 50]) initial) = Done s
     \<and> objCounter s = 1 \<and> batch s = [] \<and> origIndex s = [] \<and> tokensInCurrentBatch s = 0
     \<and> rateLimit s = Some (limits_with 10 0 99 1) \<and> 0 < ncalls s
     \<and> trace s = [Call [0] 0] \<and> budget s = 0"
  by (simp add: makeRequest_def starved_env_def world_def all_embedded_def store_result_def
      job_of_def start_job_def initial_def)

lemma starved_job_runs:
  "still_running (process_job n starved_env (job_of [''a'', ''b''] [1, 50]) initial)"
proof (cases n)
  case 0
  then show ?thesis by (simp add: process_job_def still_running_def)
next
  case (Suc m)
  show ?thesis
  proof (cases m)
    case 0
    then show ?thesis unfolding Suc
      by (simp add: process_job_def still_running_def makeRequest_def starved_env_def world_def
          all_embedded_def store_result_def job_of_def start_job_def initial_def)
  next
    case (Suc k)
    from starved_bootstrap[of k] obtain s where
      b: "bootstrap n starved_env (job_of [''a'', ''b''] [1, 50])
          (start_job (job_of [''a'', ''b''] [1, 50]) initial) = Done s"
      and i: "objCounter s = 1" "batch s = []" "origIndex s = []" "tokensInCurrentBatch s = 0"
        "rateLimit s = Some (limits_with 10 0 99 1)" "0 < ncalls s"
      unfolding \<open>n = Suc m\<close> Suc by blast
    from starved_loop[OF i, of n] obtain s1 where
      "main_loop n starved_env (job_of [''a'', ''b''] [1, 50]) s = OutOfFuel s1"
      by (cases "main_loop n starved_env (job_of [''a'', ''b''] [1, 50]) s")
        (simp_all add: still_running_def)
    then show ?thesis by (simp add: process_job_def b after_bootstrap_def still_running_def)
  qed
qed

subsection \<open>Termination of the job loop\<close>

text \<open>
  Claim C2 (the per-job loop terminates; the bootstrap phase makes progress even when
  its call fails; the completion signal is fired exactly once). The code does not
  do this. After a failed bootstrap call the loop of lines 156 to 167 continues
  without advancing \<open>objCounter\<close>: with a client whose every call fails, the job of
  one object is still in that loop after any number \<open>n\<close> of rounds, having called
  the client \<open>n\<close> times for object 0, and line 255 is never reached. The main loop
  has a second way of not ending: when the object in turn is not admitted, the batch
  is empty and \<open>ResetTokens\<close> is not positive, the empty batch is sent and the same
  object is tried again; with 10 tokens remaining and later calls that bring no new
  rate limits, the job of an object of 50 tokens is never finished either.
\<close>

theorem job_loop_never_finishes:
  "(\<forall>n. still_running (process_job n failing_env (job_of [''a''] [1]) initial)
        \<and> trace (final (process_job n failing_env (job_of [''a''] [1]) initial))
            = replicate n (Call [0] 0))
   \<and> (\<forall>n. still_running (process_job n starved_env (job_of [''a'', ''b''] [1, 50]) initial))"
  using failing_job_runs starved_job_runs by blast

subsection \<open>Outcomes per index\<close>

text \<open>
  Claim C1 (when a job is complete, every index is skipped, or has a vector, or has
  an error, and never both a vector and an error, and never neither unless it is
  skipped). The code does not keep this. First conjunct: the bootstrap call for the
  only object fails once and is repeated with success, and the object ends with the
  error of the first call and the vector of the second. Second conjunct: object 1 is
  admitted to the batch, then the context is cancelled; the batch is never sent, and
  object 1, which is not skipped, ends with neither a vector nor an error.
\<close>

theorem index_outcome_not_exclusive:
  "(case process_job 5 retry_env (job_of [''a''] [1]) initial of
      Done s \<Rightarrow>
        \<not> skipObject (job_of [''a''] [1]) ! 0 \<and> jvecs s ! 0 = Some [1]
        \<and> jerrs s 0 = Some (External ''status 401'')
    | _ \<Rightarrow> False)
   \<and> (case process_job 5 cancel_env (job_of [''a'', ''b'', ''c''] [1, 1, 1]) initial of
      Done s \<Rightarrow>
        \<not> skipObject (job_of [''a'', ''b'', ''c''] [1, 1, 1]) ! 1 \<and> jvecs s ! 1 = None
        \<and> jerrs s 1 = None
    | _ \<Rightarrow> False)"
  by code_simp

subsection \<open>Giving up on the request limit\<close>

text \<open>
  Claim C3 (when the request limit will not refresh in time, exactly the objects not
  yet dispatched get the rate-limit error, and outcomes already written stay as they
  are). The code does not do this: the loop of line 230 starts at \<open>origIndex[0]\<close>,
  the first object of the batch that was just sent. Here objects 0 and 1 have their
  vectors when the answer to the second call reports that no request is left;
  object 1 keeps its vector and gets the rate-limit error on top of it.
\<close>

theorem throttle_marks_dispatched_batch:
  "(case process_job 5 (throttle_env 2) (job_of [''a'', ''b'', ''c''] [1, 1, 1]) initial of
      Done s \<Rightarrow>
        trace s = [Call [0] 0, Call [1] 2]
        \<and> jvecs s = [Some [1], Some [1], None]
        \<and> jerrs s 0 = None
        \<and> jerrs s 1 = Some RequestRateLimit
        \<and> jerrs s 2 = Some RequestRateLimit
    | _ \<Rightarrow> False)"
  by code_simp

subsection \<open>The deadline and the sleeps\<close>

text \<open>
  Claim C4 (no sleep is entered when the time since the job's start plus the sleep
  exceeds the deadline; the affected items are marked failed instead). The code
  does not mark the items in every such case. Here the first answer reports 10
  tokens remaining, refilled within the second (\<open>ResetTokens = 0\<close>), and no request
  left for 100 seconds. Object 1 has 50 tokens: it is not admitted, the batch is
  empty and \<open>ResetTokens\<close> is not positive, so the empty batch is sent (line 219).
  Waiting 100 seconds would pass the deadline of 40 seconds, and line 230 reads
  \<open>origIndex[0]\<close> of the empty slice: the worker panics, object 1 has neither a
  vector nor an error and the job is never completed.
\<close>

theorem throttle_panics_on_empty_batch:
  "(case process_job 5 exhausted_env (job_of [''a'', ''b''] [1, 50]) initial of
      Panicked p s \<Rightarrow>
        p = IndexOutOfRange \<and> trace s = [Call [0] 0, Call [] 0]
        \<and> jvecs s ! 1 = None \<and> jerrs s 1 = None
    | _ \<Rightarrow> False)"
  by code_simp

text \<open>
  The first half of claim C4 holds of every job and every client: whenever the
  worker goes to sleep, at line 209 or at line 237, the time since the job's start
  plus the sleep is within the deadline. This is so at every moment of the job,
  whether it ends, panics or runs on.
\<close>

theorem sleep_respects_deadline:
  assumes "Sleep t d \<in> set (drop (length (trace s)) (trace (final (process_job n e j s))))"
  shows "wrap64 (t + d) \<le> maxBatchTime e"
proof (cases "bootstrap n e j (start_job j s)")
  case (Done s1)
  from bootstrap_frame[of n e j "start_job j s"] Done obtain evs where
    evs: "trace s1 = trace s @ evs" "list_all is_call evs"
    by (auto simp add: final_def)
  from process_job_log[OF Done] obtain evs2 where
    evs2: "trace (final (process_job n e j s)) = trace s1 @ evs2"
      "\<forall>ev\<in>set evs2. event_ok e j ev"
    by (auto simp add: log_ok_def)
  have "drop (length (trace s)) (trace (final (process_job n e j s))) = evs @ evs2"
    by (simp add: evs2(1) evs(1))
  with assms have "Sleep t d \<in> set evs \<or> Sleep t d \<in> set evs2"
    by simp
  then show ?thesis
  proof
    assume "Sleep t d \<in> set evs"
    with evs(2) show ?thesis by (auto simp add: list_all_iff is_call_def)
  next
    assume "Sleep t d \<in> set evs2"
    with evs2(2) have "event_ok e j (Sleep t d)" by blast
    then show ?thesis by (simp add: event_ok_def)
  qed
next
  case (Panicked x s1)
  from bootstrap_frame[of n e j "start_job j s"] Panicked obtain evs where
    evs: "trace s1 = trace s @ evs" "list_all is_call evs"
    by (auto simp add: final_def)
  from assms have "Sleep t d \<in> set evs"
    by (simp add: process_job_def Panicked final_def evs(1))
  with evs(2) show ?thesis by (auto simp add: list_all_iff is_call_def)
next
  case (OutOfFuel s1)
  from bootstrap_frame[of n e j "start_job j s"] OutOfFuel obtain evs where
    evs: "trace s1 = trace s @ evs" "list_all is_call evs"
    by (auto simp add: final_def)
  from assms have "Sleep t d \<in> set evs"
    by (simp add: process_job_def OutOfFuel final_def evs(1))
  with evs(2) show ?thesis by (auto simp add: list_all_iff is_call_def)
qed

theorem sleep_respects_deadline_witness:
  "wrap64 (Second + 2 * Second) \<le> maxBatchTime paced_env"
proof -
  let ?j = "job_of [''a'', ''b'', ''c''] [30, 30, 30]"
  have "case process_job 5 paced_env ?j initial of
          Done s \<Rightarrow> trace s = [Call [0] 0, Call [1] 50, Sleep Second (2 * Second),
                                Call [2] 50, Sleep Second (2 * Second)]
        | _ \<Rightarrow> False"
    by code_simp
  then obtain s' where s': "process_job 5 paced_env ?j initial = Done s'"
      "trace s' = [Call [0] 0, Call [1] 50, Sleep Second (2 * Second),
                   Call [2] 50, Sleep Second (2 * Second)]"
    by (cases "process_job 5 paced_env ?j initial") simp_all
  have "final (process_job 5 paced_env ?j initial) = s'"
    by (simp add: s'(1) final_def)
  moreover have "trace initial = []"
    by (simp add: initial_def)
  ultimately have "Sleep Second (2 * Second)
          \<in> set (drop (length (trace initial)) (trace (final (process_job 5 paced_env ?j initial))))"
    by (simp add: s'(2))
  from sleep_respects_deadline[OF this] show ?thesis .
qed

subsection \<open>Calls per batch\<close>

text \<open>
  Claim C5 (every batch is sent to the client at most once; the batch left at the
  end of a job is sent exactly once). The code sends a batch twice: when the job is
  given up at line 235 after the last object was admitted, \<open>texts\<close> has not been
  emptied and \<open>objCounter\<close> equals the number of objects, so line 249 sends the
  same batch again. Here the batch of object 1 is the second and the third call.
\<close>

theorem last_batch_sent_twice:
  "(case process_job 5 (throttle_env 50) (job_of [''a'', ''b''] [1, 1]) initial of
      Done s \<Rightarrow> trace s = [Call [0] 0, Call [1] 50, Call [1] 50]
    | _ \<Rightarrow> False)"
  by code_simp

subsection \<open>Cancellation\<close>

text \<open>
  Claim C6 (on cancellation every object that is neither processed nor skipped,
  those already admitted to the batch not yet sent included, gets the cancellation
  error). The code marks the objects from \<open>objCounter\<close> on only (line 171). Here
  object 1 is in the batch when the cancellation is seen: object 2 gets the error,
  object 1 gets none, and no call is made for it.
\<close>

theorem cancellation_forgets_pending_batch:
  "(case process_job 5 cancel_env (job_of [''a'', ''b'', ''c''] [1, 1, 1]) initial of
      Done s \<Rightarrow>
        trace s = [Call [0] 0]
        \<and> jvecs s = [Some [1], None, None]
        \<and> jerrs s 0 = None \<and> jerrs s 1 = None \<and> jerrs s 2 = Some ContextDone
    | _ \<Rightarrow> False)"
  by code_simp

subsection \<open>The token budget of a batch\<close>

text \<open>
  Claim C7 as stated (the token sum of every batch that is sent, the bootstrap call
  apart, is strictly below 95% of the remaining tokens known when its last object
  was admitted) fails for large budgets, because line 192 compares in \<open>float32\<close>.
  With 17660223 tokens remaining, \<open>float32(17660223)\<close> is 17660224 and the product
  with the \<open>float32\<close> nearest to 0.95 rounds to 16777213, so an object of 16777212
  tokens is admitted and sent, while 95% of 17660223 is 16777211.85.
\<close>

theorem budget_exceeded_by_rounding:
  "(case process_job 5 large_budget_env (job_of [''a'', ''b''] [1, 16777212]) initial of
      Done s \<Rightarrow> trace s = [Call [0] 0, Call [1] 17660223]
    | _ \<Rightarrow> False)
   \<and> \<not> 20 * batch_tokens (job_of [''a'', ''b''] [1, 16777212]) [1] < 19 * (17660223 :: int)"
  by code_simp

text \<open>
  Claim C7, amended: for a job whose token counts are not negative and below
  \<open>2 ^ 62\<close>, every call of the main loop or of the drain for a batch that is not
  empty, admitted against a budget \<open>b\<close> of at most \<open>2 ^ 24\<close> remaining tokens, has a
  token sum strictly below 95% of \<open>b\<close>. The calls considered are those after the
  bootstrap loop, at every moment of the job, whether it ends, panics or runs on.
\<close>

theorem dispatched_batch_within_budget:
  assumes "tokens_ok j"
    and "bootstrap n e j (start_job j s) = Done s1"
    and "Call idxs b \<in> set (drop (length (trace s1)) (trace (final (process_job n e j s))))"
    and "idxs \<noteq> []" and "b \<le> 2 ^ 24"
  shows "20 * batch_tokens j idxs < 19 * b"
proof -
  from process_job_log[OF assms(2)] assms(3)
  have "event_ok e j (Call idxs b)" by (auto simp add: log_ok_def)
  with assms(1,4,5) show ?thesis by (simp add: event_ok_def)
qed

theorem dispatched_batch_within_budget_witness:
  "20 * batch_tokens (job_of [''a'', ''b''] [1, 1]) [1] < 19 * (50::int)"
proof -
  let ?j = "job_of [''a'', ''b''] [1, 1]"
  have tok: "tokens_ok ?j"
    by (simp add: tokens_ok_def job_of_def less_Suc_eq)
  have "case bootstrap 5 (throttle_env 50) ?j (start_job ?j initial) of
          Done s \<Rightarrow> trace s = [Call [0] 0] | _ \<Rightarrow> False"
    by code_simp
  then obtain s1 where s1: "bootstrap 5 (throttle_env 50) ?j (start_job ?j initial) = Done s1"
      "trace s1 = [Call [0] 0]"
    by (cases "bootstrap 5 (throttle_env 50) ?j (start_job ?j initial)") simp_all
  have "case process_job 5 (throttle_env 50) ?j initial of
          Done s \<Rightarrow> trace s = [Call [0] 0, Call [1] 50, Call [1] 50] | _ \<Rightarrow> False"
    by code_simp
  then obtain s' where s': "process_job 5 (throttle_env 50) ?j initial = Done s'"
      "trace s' = [Call [0] 0, Call [1] 50, Call [1] 50]"
    by (cases "process_job 5 (throttle_env 50) ?j initial") simp_all
  have "Call [1] 50 \<in> set (drop (length (trace s1))
          (trace (final (process_job 5 (throttle_env 50) ?j initial))))"
    by (simp add: s1(2) s' final_def)
  from dispatched_batch_within_budget[OF tok s1(1) this] show ?thesis by simp
qed

subsection \<open>The time per token\<close>

text \<open>
  Claim C10 (line 221 divides by the token sum of the batch without a guard; the
  quotient is a number only if the sum is not zero; for some input the sum is zero,
  and from then on the estimate blocks the time test of the admission). In order:
  \<^item> the quotient of line 221 is finite exactly when the token sum is not zero;
  \<^item> for a job of two objects of no tokens the batch of object 1 is sent with the
    sum zero, and the time per token is \<open>+Inf\<close> afterwards;
  \<^item> with the quotient of a duration that is not negative by zero as time per token,
    line 192 admits no object, whatever the rate limits and the batch;
  \<^item> a worker that starts a job with such a time per token has one at every later
    moment of the job, and every call it makes after the bootstrap loop is for the
    empty batch.
\<close>

theorem zero_tokens_poison_time_per_token:
  "(\<forall>d k. is_finite (time_per_token d k) \<longleftrightarrow> k \<noteq> 0)
   \<and> (case process_job 5 steady_env (job_of [''a'', ''b''] [0, 0]) initial of
         Done s \<Rightarrow> trace s = [Call [0] 0, Call [1] 50] \<and> timePerToken s = PInf
       | _ \<Rightarrow> False)
   \<and> (\<forall>d rl tib tok n. 0 \<le> d \<and> 0 \<le> tib \<longrightarrow> \<not> admits rl (time_per_token d 0) tib tok n)
   \<and> (\<forall>n e j s s1.
         (\<forall>m. 0 \<le> took e m) \<and> poisoned (timePerToken s)
         \<longrightarrow> poisoned (timePerToken (final (process_job n e j s)))
             \<and> (bootstrap n e j (start_job j s) = Done s1 \<longrightarrow>
                  (\<forall>idxs b. Call idxs b
                       \<in> set (drop (length (trace s1)) (trace (final (process_job n e j s))))
                     \<longrightarrow> idxs = [])))"
proof (intro conjI allI impI)
  fix d k
  show "is_finite (time_per_token d k) \<longleftrightarrow> k \<noteq> 0"
    by (rule time_per_token_finite_iff)
next
  show "case process_job 5 steady_env (job_of [''a'', ''b''] [0, 0]) initial of
         Done s \<Rightarrow> trace s = [Call [0] 0, Call [1] 50] \<and> timePerToken s = PInf
       | _ \<Rightarrow> False"
    by code_simp
next
  fix d tib :: int and rl tok n
  assume "0 \<le> d \<and> 0 \<le> tib"
  then show "\<not> admits rl (time_per_token d 0) tib tok n"
    by (intro poisoned_blocks time_per_token_zero_poisoned) simp_all
next
  fix n and e :: env and j and s s1 :: state
  assume a: "(\<forall>m. 0 \<le> took e m) \<and> poisoned (timePerToken s)"
  then show "poisoned (timePerToken (final (process_job n e j s)))"
    by (intro process_job_stuck(1)) simp_all
next
  fix n and e :: env and j and s s1 :: state and idxs b
  assume a: "(\<forall>m. 0 \<le> took e m) \<and> poisoned (timePerToken s)"
    and b: "bootstrap n e j (start_job j s) = Done s1"
    and c: "Call idxs b \<in> set (drop (length (trace s1)) (trace (final (process_job n e j s))))"
  from a have "\<forall>m. 0 \<le> took e m" "poisoned (timePerToken s)" by simp_all
  from process_job_stuck(2)[OF this b]
  obtain evs where evs: "trace (final (process_job n e j s)) = trace s1 @ evs"
      "\<forall>ev\<in>set evs. empty_call ev"
    by (auto simp add: calls_empty_def list_all_iff)
  from c evs(1) have "Call idxs b \<in> set evs" by simp
  with evs(2) have "empty_call (Call idxs b)" by blast
  then show "idxs = []" by (simp add: empty_call_def)
qed

theorem zero_tokens_poison_time_per_token_witness:
  "\<not> is_finite (time_per_token Second 0)
   \<and> \<not> admits (limits_with 50 1 99 1) (time_per_token Second 0) 0 1 0"
  using zero_tokens_poison_time_per_token by (simp add: Second_def)

subsection \<open>\<open>ObjectBatch\<close> when every object is skipped\<close>

text \<open>
  Claim C8 as stated (if every object is skipped, \<open>ObjectBatch\<close> returns an empty
  error map) fails when the tokenizer does not know the model: lines 298 to 303 come
  before the skip flags are read, and every object, skipped or not, gets the
  tokenizer's error.
\<close>

theorem all_skipped_tokenizer_error:
  "(case ObjectBatch 5 failing_env (plain (\<lambda>m. Some (External ''no encoding''))) initial
           [''x''] [True] of
      Returned v m s \<Rightarrow> m 0 = Some (External ''no encoding'')
    | _ \<Rightarrow> False)"
  by code_simp

text \<open>
  Claim C8, amended: if the tokenizer knows the model, the skip flags are as many as
  the objects and every object is skipped, then \<open>ObjectBatch\<close> returns one \<open>nil\<close>
  vector per object and the empty error map, and the worker's variables are
  untouched: no job was handed to it and no client call was made.
\<close>

theorem all_skipped_returns_at_once:
  assumes "EncodingForModel c (tokenizer_model (Model c)) = None"
    and "length skip = length objects"
    and "\<forall>i<length skip. skip ! i"
  shows "ObjectBatch n e c w objects skip =
           Returned (Some (replicate (length objects) None)) Map.empty w"
proof -
  have "list_all (\<lambda>i. skip ! i) [0..<length objects]"
    using assms(2,3) by (simp add: list_all_iff)
  then show ?thesis
    using assms(1,2) by (simp add: ObjectBatch_def)
qed

theorem all_skipped_returns_at_once_witness:
  "ObjectBatch 5 failing_env (plain (\<lambda>m. None)) initial [''x'', ''y''] [True, True] =
     Returned (Some [None, None]) Map.empty initial"
  using all_skipped_returns_at_once
          [of "plain (\<lambda>m. None)" "[True, True]" "[''x'', ''y'']" 5 failing_env initial]
  by (simp add: plain_def less_Suc_eq)

subsection \<open>The single-object path\<close>

text \<open>
  Claim C9 (\<open>object\<close> has a value only if a successful answer holds at least one
  embedding): when the client answers without error, \<open>object\<close> panics with an index
  out of range if the answer has no embedding, and returns a vector if it has one.
\<close>

theorem object_needs_a_chunk:
  assumes "err (client [Texts c ob]) = None"
    and "res (client [Texts c ob]) = Some vr"
  shows "(Vector vr = [] \<longrightarrow> object c client ob = Panics IndexOutOfRange ())
       \<and> (Vector vr \<noteq> [] \<longrightarrow> (\<exists>v. object c client ob = Ret (Inr v)))"
  using assms by (cases "Vector vr") (simp_all add: object_def)

theorem object_needs_a_chunk_witness:
  "object (plain (\<lambda>m. None)) no_chunks ''x'' = Panics IndexOutOfRange ()"
  using object_needs_a_chunk
          [of no_chunks "plain (\<lambda>m. None)" "''x''" "\<lparr>Vector = [], Errors = []\<rparr>"]
  by (simp add: no_chunks_def)

end
